theory Spec2Isabelle
  imports Main "HOL-Library.Word"
begin

unbundle bit_operations_syntax

section \<open>Machine types and constants\<close>

text \<open>
  \<open>unsigned int\<close> and \<open>int\<close> are 32-bit, \<open>uint64_t\<close> is 64-bit. A value of type
  \<open>s32\<close> is a C \<open>int\<close>: the same 32 bits, read through \<open>sint\<close>.
\<close>

type_synonym u32 = "32 word"
type_synonym s32 = "32 word"
type_synonym u64 = "64 word"

text \<open>\<open>static constexpr int kMaxBookLevels = 100;\<close> (message_types.h)\<close>

definition kMaxBookLevels :: int where
  "kMaxBookLevels = 100"

text \<open>\<open>static constexpr unsigned int kArraySize = kMaxBookLevels;\<close> (orderbook.h)\<close>

definition kArraySize :: u32 where
  "kArraySize = word_of_int kMaxBookLevels"

text \<open>\<open>constexpr unsigned int kMaxBitPosition = 128U;\<close> (orderbook.cpp)\<close>

definition kMaxBitPosition :: u32 where
  "kMaxBitPosition = 128"

section \<open>Bitset128\<close>

record Bitset128 =
  low :: u64
  high :: u64

definition SetBit :: "Bitset128 \<Rightarrow> u32 \<Rightarrow> Bitset128" where
  "SetBit bs pos =
     (if pos \<ge> kMaxBitPosition then bs
      else if pos < 64 then bs\<lparr>low := low bs OR push_bit (unat pos) 1\<rparr>
      else bs\<lparr>high := high bs OR push_bit (unat (pos - 64)) 1\<rparr>)"

definition ClearBit :: "Bitset128 \<Rightarrow> u32 \<Rightarrow> Bitset128" where
  "ClearBit bs pos =
     (if pos \<ge> kMaxBitPosition then bs
      else if pos < 64 then bs\<lparr>low := low bs AND NOT (push_bit (unat pos) 1)\<rparr>
      else bs\<lparr>high := high bs AND NOT (push_bit (unat (pos - 64)) 1)\<rparr>)"

definition TestBit :: "Bitset128 \<Rightarrow> u32 \<Rightarrow> bool" where
  "TestBit bs pos =
     (if pos \<ge> kMaxBitPosition then False
      else if pos < 64 then (low bs AND push_bit (unat pos) 1) \<noteq> 0
      else (high bs AND push_bit (unat (pos - 64)) 1) \<noteq> 0)"

text \<open>
  The compiler builtins are not part of the repository. They are modelled from their
  documented meaning: \<open>__builtin_clzll x\<close> is the number of leading 0-bits of the 64-bit
  value \<open>x\<close>, counted from the most significant bit position, and \<open>__builtin_ctzll x\<close>
  the number of trailing 0-bits, counted from the least significant bit position. Both
  are undefined at 0 in C; the source calls them on non-zero words only, and the model
  returns 64 there.
\<close>

definition builtin_clzll :: "u64 \<Rightarrow> nat" where
  "builtin_clzll x = length (takeWhile (\<lambda>i. \<not> bit x i) (rev [0..<64]))"

definition builtin_ctzll :: "u64 \<Rightarrow> nat" where
  "builtin_ctzll x = length (takeWhile (\<lambda>i. \<not> bit x i) [0..<64])"

text \<open>The branch compiled under \<open>__GNUC__\<close> or \<open>__clang__\<close>.\<close>

definition HighestSetBit :: "Bitset128 \<Rightarrow> int" where
  "HighestSetBit bs =
     (if high bs \<noteq> 0 then (let lead = int (builtin_clzll (high bs)) in 64 + (63 - lead))
      else if low bs \<noteq> 0 then (let lead = int (builtin_clzll (low bs)) in 63 - lead)
      else - 1)"

definition LowestSetBit :: "Bitset128 \<Rightarrow> int" where
  "LowestSetBit bs =
     (if low bs \<noteq> 0 then int (builtin_ctzll (low bs))
      else if high bs \<noteq> 0 then 64 + int (builtin_ctzll (high bs))
      else - 1)"

text \<open>
  The fallback branch of the same two functions: the loops
  \<open>for (int i = 63; i >= 0; --i) if ((w >> i) & 1ULL) return base + i;\<close> and
  \<open>for (int i = 0; i < 64; ++i) if ((w >> i) & 1ULL) return base + i;\<close>, each followed
  by \<open>return -1\<close>. \<open>scan_down w base k\<close> is the first loop with \<open>k\<close> iterations left
  (\<open>i = k - 1\<close>), \<open>scan_up w base i k\<close> the second at index \<open>i\<close> with \<open>k\<close> iterations left.
\<close>

fun scan_down :: "u64 \<Rightarrow> int \<Rightarrow> nat \<Rightarrow> int" where
  "scan_down w base 0 = - 1"
| "scan_down w base (Suc i) =
     (if drop_bit i w AND 1 \<noteq> 0 then base + int i else scan_down w base i)"

fun scan_up :: "u64 \<Rightarrow> int \<Rightarrow> nat \<Rightarrow> nat \<Rightarrow> int" where
  "scan_up w base i 0 = - 1"
| "scan_up w base i (Suc k) =
     (if drop_bit i w AND 1 \<noteq> 0 then base + int i else scan_up w base (Suc i) k)"

definition HighestSetBit_fallback :: "Bitset128 \<Rightarrow> int" where
  "HighestSetBit_fallback bs =
     (if high bs \<noteq> 0 then scan_down (high bs) 64 64
      else if low bs \<noteq> 0 then scan_down (low bs) 0 64
      else - 1)"

definition LowestSetBit_fallback :: "Bitset128 \<Rightarrow> int" where
  "LowestSetBit_fallback bs =
     (if low bs \<noteq> 0 then scan_up (low bs) 0 0 64
      else if high bs \<noteq> 0 then scan_up (high bs) 64 0 64
      else - 1)"

text \<open>Bit \<open>n\<close> of the 128-bit set: word 0 covers positions 0..63, word 1 covers 64..127.\<close>

definition bs_bit :: "Bitset128 \<Rightarrow> nat \<Rightarrow> bool" where
  "bs_bit bs n = (if n < 64 then bit (low bs) n else bit (high bs) (n - 64))"

text \<open>No bit of the set is set: both words are zero.\<close>

definition bs_empty :: "Bitset128 \<Rightarrow> bool" where
  "bs_empty bs \<longleftrightarrow> low bs = 0 \<and> high bs = 0"

section \<open>Messages\<close>

text \<open>
  The pointer and length fields of the three message structs (ticker, market id, trade
  id) and the trade timestamp are never read by the order book and are left out.
\<close>

datatype Side = kUndefined | kYes | kNo

record SnapshotMessage =
  yes_count :: s32
  yes_price :: "u32 list"
  yes_qty :: "u32 list"
  no_count :: s32
  no_price :: "u32 list"
  no_qty :: "u32 list"

record DeltaMessage =
  price :: u32
  delta :: s32
  side :: Side

record TradeMessage =
  yes_price :: u32
  no_price :: u32
  count :: s32
  taker_side :: Side

text \<open>
  The four arrays of a snapshot message have \<open>kMaxBookLevels\<close> entries; the loops of
  \<open>ApplySnapshot\<close> read entries \<open>0 .. count - 1\<close>, which is inside the arrays when the
  counts are at most \<open>kMaxBookLevels\<close>.
\<close>

definition wf_snapshot :: "SnapshotMessage \<Rightarrow> bool" where
  "wf_snapshot snap \<longleftrightarrow>
     length (SnapshotMessage.yes_price snap) = nat kMaxBookLevels \<and>
     length (yes_qty snap) = nat kMaxBookLevels \<and>
     length (SnapshotMessage.no_price snap) = nat kMaxBookLevels \<and>
     length (no_qty snap) = nat kMaxBookLevels \<and>
     sint (yes_count snap) \<le> kMaxBookLevels \<and>
     sint (no_count snap) \<le> kMaxBookLevels"

text \<open>The (price, quantity) pairs of each side, in the order the loops visit them.\<close>

definition yes_levels :: "SnapshotMessage \<Rightarrow> (u32 \<times> u32) list" where
  "yes_levels snap =
     map (\<lambda>i. (SnapshotMessage.yes_price snap ! i, yes_qty snap ! i))
       [0..<nat (sint (yes_count snap))]"

definition no_levels :: "SnapshotMessage \<Rightarrow> (u32 \<times> u32) list" where
  "no_levels snap =
     map (\<lambda>i. (SnapshotMessage.no_price snap ! i, no_qty snap ! i))
       [0..<nat (sint (no_count snap))]"

section \<open>OrderBook\<close>

record OrderBook =
  bids :: "u32 list"
  asks :: "u32 list"
  bids_bitset :: Bitset128
  asks_bitset :: Bitset128

text \<open>The constructor \<open>OrderBook::OrderBook()\<close>.\<close>

definition OrderBook_init :: OrderBook where
  "OrderBook_init =
     \<lparr>bids = replicate (unat kArraySize) 0,
      asks = replicate (unat kArraySize) 0,
      bids_bitset = \<lparr>low = 0, high = 0\<rparr>,
      asks_bitset = \<lparr>low = 0, high = 0\<rparr>\<rparr>"

text \<open>The bodies of the two loops of \<open>ApplySnapshot\<close>, at index \<open>i\<close>.\<close>

definition load_bid :: "SnapshotMessage \<Rightarrow> nat \<Rightarrow> OrderBook \<Rightarrow> OrderBook" where
  "load_bid snap i b =
     (let price_value = SnapshotMessage.yes_price snap ! i;
          quantity_value = yes_qty snap ! i
      in if price_value < kArraySize then
           (let b1 = b\<lparr>bids := (bids b)[unat price_value := quantity_value]\<rparr>
            in if quantity_value > 0
               then b1\<lparr>bids_bitset := SetBit (bids_bitset b1) price_value\<rparr>
               else b1)
         else b)"

definition load_ask :: "SnapshotMessage \<Rightarrow> nat \<Rightarrow> OrderBook \<Rightarrow> OrderBook" where
  "load_ask snap i b =
     (let price_value = SnapshotMessage.no_price snap ! i;
          quantity_value = no_qty snap ! i
      in if price_value < kArraySize then
           (let b1 = b\<lparr>asks := (asks b)[unat price_value := quantity_value]\<rparr>
            in if quantity_value > 0
               then b1\<lparr>asks_bitset := SetBit (asks_bitset b1) price_value\<rparr>
               else b1)
         else b)"

definition ApplySnapshot :: "OrderBook \<Rightarrow> SnapshotMessage \<Rightarrow> OrderBook" where
  "ApplySnapshot b snap =
     (let b0 = b\<lparr>bids := replicate (unat kArraySize) 0,
                 asks := replicate (unat kArraySize) 0,
                 bids_bitset := (bids_bitset b)\<lparr>low := 0, high := 0\<rparr>,
                 asks_bitset := (asks_bitset b)\<lparr>low := 0, high := 0\<rparr>\<rparr>;
          b1 = fold (load_bid snap) [0..<nat (sint (yes_count snap))] b0;
          b2 = fold (load_ask snap) [0..<nat (sint (no_count snap))] b1
      in b2)"

definition ApplyDelta :: "OrderBook \<Rightarrow> DeltaMessage \<Rightarrow> OrderBook" where
  "ApplyDelta b msg =
     (let price_value = price msg; delta_value = delta msg
      in if price_value \<ge> kArraySize then b
         else if side msg = kYes then
           (let b1 = b\<lparr>bids := (bids b)[unat price_value :=
                                  bids b ! unat price_value + delta_value]\<rparr>
            in if bids b1 ! unat price_value = 0
               then b1\<lparr>bids_bitset := ClearBit (bids_bitset b1) price_value\<rparr>
               else b1\<lparr>bids_bitset := SetBit (bids_bitset b1) price_value\<rparr>)
         else if side msg = kNo then
           (let b1 = b\<lparr>asks := (asks b)[unat price_value :=
                                  asks b ! unat price_value + delta_value]\<rparr>
            in if asks b1 ! unat price_value = 0
               then b1\<lparr>asks_bitset := ClearBit (asks_bitset b1) price_value\<rparr>
               else b1\<lparr>asks_bitset := SetBit (asks_bitset b1) price_value\<rparr>)
         else b)"

definition ApplyTrade :: "OrderBook \<Rightarrow> TradeMessage \<Rightarrow> OrderBook" where
  "ApplyTrade b trade =
     (let remove_qty = count trade
      in if sint remove_qty \<le> 0 then b
         else if taker_side trade = kYes then
           (let price_value = TradeMessage.no_price trade
            in if price_value < kArraySize then
                 (let b1 = b\<lparr>asks := (asks b)[unat price_value :=
                                        asks b ! unat price_value - remove_qty]\<rparr>
                  in if asks b1 ! unat price_value = 0
                     then b1\<lparr>asks_bitset := ClearBit (asks_bitset b1) price_value\<rparr>
                     else b1)
               else b)
         else if taker_side trade = kNo then
           (let price_value = TradeMessage.yes_price trade
            in if price_value < kArraySize then
                 (let b1 = b\<lparr>bids := (bids b)[unat price_value :=
                                        bids b ! unat price_value - remove_qty]\<rparr>
                  in if bids b1 ! unat price_value = 0
                     then b1\<lparr>bids_bitset := ClearBit (bids_bitset b1) price_value\<rparr>
                     else b1)
               else b)
         else b)"

text \<open>
  \<open>idx\<close> is a C \<open>int\<close> between -1 and 127; \<open>static_cast<unsigned int>(idx)\<close> is
  \<open>word_of_int idx\<close>.
\<close>

definition BestBid :: "OrderBook \<Rightarrow> u32 \<times> u32" where
  "BestBid b =
     (let idx = HighestSetBit (bids_bitset b)
      in if idx \<ge> 0 \<and> (word_of_int idx :: u32) < kArraySize
         then (word_of_int idx, bids b ! nat idx)
         else (0, 0))"

definition BestAsk :: "OrderBook \<Rightarrow> u32 \<times> u32" where
  "BestAsk b =
     (let idx = LowestSetBit (asks_bitset b)
      in if idx \<ge> 0 \<and> (word_of_int idx :: u32) < kArraySize
         then (word_of_int idx, asks b ! nat idx)
         else (0, 0))"

text \<open>
  \<open>result.reserve(n)\<close> converts the \<open>int\<close> argument to the vector's 64-bit
  \<open>size_type\<close> (sign extension) and, as the C++ standard library specifies, throws
  \<open>std::length_error\<close> when the converted value exceeds \<open>max_size()\<close>. For a vector of
  8-byte pairs \<open>max_size()\<close> is \<open>PTRDIFF_MAX / 8 = 2^60 - 1\<close>; no implementation can have it above
  \<open>SIZE_MAX / 8\<close>. Failure of the allocation itself (\<open>std::bad_alloc\<close>) is not
  modelled: memory is taken to be available.
\<close>

datatype error = length_error

definition vector_max_size :: u64 where
  "vector_max_size = 0x0FFFFFFFFFFFFFFF"

definition vector_reserve :: "s32 \<Rightarrow> error + unit" where
  "vector_reserve n =
     (if (scast n :: u64) > vector_max_size then Inl length_error else Inr ())"

text \<open>
  The \<open>while (n > 0)\<close> loops of the two top-N queries. \<open>msk\<close> is the local copy \<open>mask\<close> of the
  side's bitset and \<open>arr\<close> the side's quantity array.
\<close>

function GetTopNBids_loop ::
  "u32 list \<Rightarrow> Bitset128 \<Rightarrow> int \<Rightarrow> (u32 \<times> u32) list \<Rightarrow> (u32 \<times> u32) list" where
  "GetTopNBids_loop arr msk n result =
     (if n > 0 then
        (let idx = HighestSetBit msk
         in if idx < 0 \<or> (word_of_int idx :: u32) \<ge> kArraySize then result
            else GetTopNBids_loop arr (ClearBit msk (word_of_int idx)) (n - 1)
                   (result @ [(word_of_int idx, arr ! nat idx)]))
      else result)"
  by pat_completeness auto
termination
  by (relation "measure (\<lambda>(arr, msk, n, result). nat n)") auto

function GetTopNAsks_loop ::
  "u32 list \<Rightarrow> Bitset128 \<Rightarrow> int \<Rightarrow> (u32 \<times> u32) list \<Rightarrow> (u32 \<times> u32) list" where
  "GetTopNAsks_loop arr msk n result =
     (if n > 0 then
        (let idx = LowestSetBit msk
         in if idx < 0 \<or> (word_of_int idx :: u32) \<ge> kArraySize then result
            else GetTopNAsks_loop arr (ClearBit msk (word_of_int idx)) (n - 1)
                   (result @ [(word_of_int idx, arr ! nat idx)]))
      else result)"
  by pat_completeness auto
termination
  by (relation "measure (\<lambda>(arr, msk, n, result). nat n)") auto

declare GetTopNBids_loop.simps [simp del] GetTopNAsks_loop.simps [simp del]

definition GetTopNBids :: "OrderBook \<Rightarrow> s32 \<Rightarrow> error + (u32 \<times> u32) list" where
  "GetTopNBids b n =
     (case vector_reserve n of
        Inl e \<Rightarrow> Inl e
      | Inr _ \<Rightarrow> Inr (GetTopNBids_loop (bids b) (bids_bitset b) (sint n) []))"

definition GetTopNAsks :: "OrderBook \<Rightarrow> s32 \<Rightarrow> error + (u32 \<times> u32) list" where
  "GetTopNAsks b n =
     (case vector_reserve n of
        Inl e \<Rightarrow> Inl e
      | Inr _ \<Rightarrow> Inr (GetTopNAsks_loop (asks b) (asks_bitset b) (sint n) []))"

section \<open>Book states\<close>

text \<open>
  A book state has two quantity arrays of \<open>kArraySize\<close> entries, and its presence bitsets
  have no bit at a position from \<open>kArraySize\<close> up to 127, where there is no price level.
\<close>

definition wf_book :: "OrderBook \<Rightarrow> bool" where
  "wf_book b \<longleftrightarrow>
     length (bids b) = unat kArraySize \<and> length (asks b) = unat kArraySize \<and>
     (\<forall>n \<in> set [unat kArraySize..<128].
        \<not> TestBit (bids_bitset b) (of_nat n) \<and> \<not> TestBit (asks_bitset b) (of_nat n))"

text \<open>
  The array/bitset invariant: at every price, the presence bit of a side is set if and
  only if the side's quantity there is non-zero.
\<close>

definition book_invariant :: "OrderBook \<Rightarrow> bool" where
  "book_invariant b \<longleftrightarrow>
     (\<forall>p \<in> set [0..<unat kArraySize].
        (TestBit (bids_bitset b) (of_nat p) \<longleftrightarrow> bids b ! p \<noteq> 0) \<and>
        (TestBit (asks_bitset b) (of_nat p) \<longleftrightarrow> asks b ! p \<noteq> 0))"

text \<open>
  The states the public interface can produce: the constructor, then any sequence of
  the three mutation calls.
\<close>

inductive reachable :: "OrderBook \<Rightarrow> bool" where
  reach_init: "reachable OrderBook_init"
| reach_snapshot: "reachable b \<Longrightarrow> wf_snapshot snap \<Longrightarrow> reachable (ApplySnapshot b snap)"
| reach_delta: "reachable b \<Longrightarrow> reachable (ApplyDelta b msg)"
| reach_trade: "reachable b \<Longrightarrow> reachable (ApplyTrade b trade)"

text \<open>
  The occupied levels of each side, as (price, quantity) pairs: the prices whose
  presence bit is set, bids from the highest price down, asks from the lowest price up.
\<close>

definition occupied_bids :: "OrderBook \<Rightarrow> (u32 \<times> u32) list" where
  "occupied_bids b =
     map (\<lambda>p. (of_nat p, bids b ! p))
       (rev (filter (\<lambda>p. TestBit (bids_bitset b) (of_nat p)) [0..<unat kArraySize]))"

definition occupied_asks :: "OrderBook \<Rightarrow> (u32 \<times> u32) list" where
  "occupied_asks b =
     map (\<lambda>p. (of_nat p, asks b ! p))
       (filter (\<lambda>p. TestBit (asks_bitset b) (of_nat p)) [0..<unat kArraySize])"

section \<open>Conditions on messages\<close>

text \<open>
  A trade message that, when it consumes a level at all, consumes one whose stored
  quantity is non-zero.
\<close>

definition trade_on_stock :: "OrderBook \<Rightarrow> TradeMessage \<Rightarrow> bool" where
  "trade_on_stock b trade \<longleftrightarrow>
     (0 < sint (count trade) \<and> taker_side trade = kYes \<and> TradeMessage.no_price trade < kArraySize
        \<longrightarrow> asks b ! unat (TradeMessage.no_price trade) \<noteq> 0) \<and>
     (0 < sint (count trade) \<and> taker_side trade = kNo \<and> TradeMessage.yes_price trade < kArraySize
        \<longrightarrow> bids b ! unat (TradeMessage.yes_price trade) \<noteq> 0)"

text \<open>
  A snapshot in which no price of a side has an entry with positive quantity while the
  last entry for that price has quantity zero. Snapshots without duplicate prices are of
  this kind.
\<close>

definition snapshot_consistent :: "SnapshotMessage \<Rightarrow> bool" where
  "snapshot_consistent snap \<longleftrightarrow>
     list_all (\<lambda>(pr, q). q > 0 \<longrightarrow> map_of (rev (yes_levels snap)) pr \<noteq> Some 0) (yes_levels snap) \<and>
     list_all (\<lambda>(pr, q). q > 0 \<longrightarrow> map_of (rev (no_levels snap)) pr \<noteq> Some 0) (no_levels snap)"

text \<open>
  The states the interface produces when every snapshot is consistent and every trade
  consumes a stocked level.
\<close>

inductive reachable_in_contract :: "OrderBook \<Rightarrow> bool" where
  contract_init: "reachable_in_contract OrderBook_init"
| contract_snapshot:
    "reachable_in_contract b \<Longrightarrow> wf_snapshot snap \<Longrightarrow> snapshot_consistent snap
       \<Longrightarrow> reachable_in_contract (ApplySnapshot b snap)"
| contract_delta: "reachable_in_contract b \<Longrightarrow> reachable_in_contract (ApplyDelta b msg)"
| contract_trade:
    "reachable_in_contract b \<Longrightarrow> trade_on_stock b trade
       \<Longrightarrow> reachable_in_contract (ApplyTrade b trade)"

section \<open>Concrete inputs\<close>

text \<open>
  The snapshot and the trade of the specification's scenarios 2 and 4, a trade against an
  empty level, and two snapshots that list a price twice.
\<close>

definition scenario2 :: SnapshotMessage where
  "scenario2 =
     \<lparr>yes_count = 2, yes_price = 70 # 65 # replicate 98 0, yes_qty = 10 # 5 # replicate 98 0,
      no_count = 1, no_price = 40 # replicate 99 0, no_qty = 8 # replicate 99 0\<rparr>"

definition scenario4 :: TradeMessage where
  "scenario4 = \<lparr>yes_price = 65, no_price = 40, count = 8, taker_side = kYes\<rparr>"

definition trade_on_empty :: TradeMessage where
  "trade_on_empty = \<lparr>yes_price = 0, no_price = 0, count = 1, taker_side = kYes\<rparr>"

definition duplicate_snapshot :: SnapshotMessage where
  "duplicate_snapshot =
     \<lparr>yes_count = 2, yes_price = 5 # 5 # replicate 98 0, yes_qty = 3 # 0 # replicate 98 0,
      no_count = 0, no_price = replicate 100 0, no_qty = replicate 100 0\<rparr>"

definition zero_level_snapshot :: SnapshotMessage where
  "zero_level_snapshot =
     \<lparr>yes_count = 2, yes_price = 0 # 0 # replicate 98 0, yes_qty = 1 # 0 # replicate 98 0,
      no_count = 2, no_price = 0 # 0 # replicate 98 0, no_qty = 1 # 0 # replicate 98 0\<rparr>"

section \<open>Bitset128: bits, extremal bits\<close>

lemma bs_bit_ge128: "128 \<le> n \<Longrightarrow> \<not> bs_bit bs n"
  by (auto simp: bs_bit_def dest: bit_imp_le_length)

lemma TestBit_iff: "TestBit bs p \<longleftrightarrow> bs_bit bs (unat p)"
proof (cases "p \<ge> kMaxBitPosition")
  case True
  then have "128 \<le> unat p" by (simp add: kMaxBitPosition_def word_le_nat_alt)
  with True show ?thesis by (simp add: TestBit_def bs_bit_ge128)
next
  case False
  then have lt: "unat p < 128" by (simp add: kMaxBitPosition_def word_le_nat_alt)
  show ?thesis
  proof (cases "p < 64")
    case True
    then have "unat p < 64" by (simp add: word_less_nat_alt)
    with True False show ?thesis
      by (simp add: TestBit_def bs_bit_def bit_iff_and_push_bit_not_eq_0)
  next
    case F: False
    then have ge: "64 \<le> unat p" by (simp add: word_less_nat_alt)
    then have "unat (p - 64) = unat p - 64"
      by (simp add: unat_sub word_le_nat_alt)
    with F False ge show ?thesis
      by (simp add: TestBit_def bs_bit_def bit_iff_and_push_bit_not_eq_0)
  qed
qed

lemma bs_bit_SetBit: "bs_bit (SetBit bs p) n \<longleftrightarrow> (unat p < 128 \<and> n = unat p) \<or> bs_bit bs n"
proof (cases "p \<ge> kMaxBitPosition")
  case True
  then have "128 \<le> unat p" by (simp add: kMaxBitPosition_def word_le_nat_alt)
  with True show ?thesis by (simp add: SetBit_def)
next
  case False
  then have lt: "unat p < 128" by (simp add: kMaxBitPosition_def word_le_nat_alt)
  show ?thesis
  proof (cases "p < 64")
    case True
    then have "unat p < 64" by (simp add: word_less_nat_alt)
    with True False lt show ?thesis
      by (auto simp: SetBit_def bs_bit_def bit_simps)
  next
    case F: False
    then have ge: "64 \<le> unat p" by (simp add: word_less_nat_alt)
    then have "unat (p - 64) = unat p - 64"
      by (simp add: unat_sub word_le_nat_alt)
    with F False ge lt show ?thesis
      by (auto simp: SetBit_def bs_bit_def bit_simps)
  qed
qed

lemma bs_bit_ClearBit: "bs_bit (ClearBit bs p) n \<longleftrightarrow> bs_bit bs n \<and> n \<noteq> unat p"
proof (cases "p \<ge> kMaxBitPosition")
  case True
  then have "128 \<le> unat p" by (simp add: kMaxBitPosition_def word_le_nat_alt)
  with True show ?thesis using bs_bit_ge128[of n bs] by (auto simp: ClearBit_def)
next
  case False
  then have lt: "unat p < 128" by (simp add: kMaxBitPosition_def word_le_nat_alt)
  show ?thesis
  proof (cases "p < 64")
    case True
    then have "unat p < 64" by (simp add: word_less_nat_alt)
    with True False lt show ?thesis
      by (auto simp: ClearBit_def bs_bit_def bit_simps)
  next
    case F: False
    then have ge: "64 \<le> unat p" by (simp add: word_less_nat_alt)
    then have "unat (p - 64) = unat p - 64"
      by (simp add: unat_sub word_le_nat_alt)
    with F False ge lt show ?thesis
      by (auto simp: ClearBit_def bs_bit_def bit_simps dest: bit_imp_le_length)
  qed
qed

lemma takeWhile_prefix_holds: "j < length (takeWhile P xs) \<Longrightarrow> P (xs ! j)"
  by (metis nth_mem set_takeWhileD takeWhile_nth)

lemma takeWhile_stops: "x \<in> set xs \<Longrightarrow> \<not> P x \<Longrightarrow> length (takeWhile P xs) < length xs"
  by (induction xs) auto

lemma word_nonzero_bit: "(x::u64) \<noteq> 0 \<Longrightarrow> \<exists>n<64. bit x n"
proof -
  assume "x \<noteq> 0"
  then obtain n where "bit x n" by (auto simp: bit_eq_iff)
  then show ?thesis using bit_imp_le_length[of x n] by auto
qed

lemma clzll_spec:
  assumes "x \<noteq> 0"
  shows "builtin_clzll x < 64"
    and "bit x (63 - builtin_clzll x)"
    and "63 - builtin_clzll x < n \<Longrightarrow> \<not> bit x n"
proof -
  let ?P = "\<lambda>i. \<not> bit x i"
  let ?xs = "rev [0..<64]"
  let ?k = "length (takeWhile ?P ?xs)"
  from assms obtain m where m: "m < 64" "bit x m" using word_nonzero_bit by blast
  then have "m \<in> set ?xs" and "\<not> ?P m" by auto
  then have k: "?k < length ?xs" by (rule takeWhile_stops)
  then show lt: "builtin_clzll x < 64" by (simp add: builtin_clzll_def)
  have nth: "?xs ! j = 63 - j" if "j < 64" for j
    using that by (simp add: rev_nth)
  from k have "\<not> ?P (?xs ! ?k)" by (rule nth_length_takeWhile)
  with lt show "bit x (63 - builtin_clzll x)" by (simp add: builtin_clzll_def nth)
  show "\<not> bit x n" if "63 - builtin_clzll x < n"
  proof (cases "n < 64")
    case False
    then show ?thesis using bit_imp_le_length[of x n] by auto
  next
    case True
    with that lt have j: "63 - n < ?k" by (simp add: builtin_clzll_def)
    then have "?P (?xs ! (63 - n))" by (rule takeWhile_prefix_holds)
    with True show ?thesis by (simp add: nth)
  qed
qed

lemma ctzll_spec:
  assumes "x \<noteq> 0"
  shows "builtin_ctzll x < 64"
    and "bit x (builtin_ctzll x)"
    and "n < builtin_ctzll x \<Longrightarrow> \<not> bit x n"
proof -
  let ?P = "\<lambda>i. \<not> bit x i"
  let ?xs = "[0..<64]"
  let ?k = "length (takeWhile ?P ?xs)"
  from assms obtain m where m: "m < 64" "bit x m" using word_nonzero_bit by blast
  then have "m \<in> set ?xs" and "\<not> ?P m" by auto
  then have k: "?k < length ?xs" by (rule takeWhile_stops)
  then show lt: "builtin_ctzll x < 64" by (simp add: builtin_ctzll_def)
  from k have "\<not> ?P (?xs ! ?k)" by (rule nth_length_takeWhile)
  with lt show "bit x (builtin_ctzll x)" by (simp add: builtin_ctzll_def)
  show "\<not> bit x n" if "n < builtin_ctzll x"
  proof -
    from that have j: "n < ?k" by (simp add: builtin_ctzll_def)
    then have "?P (?xs ! n)" by (rule takeWhile_prefix_holds)
    with that lt show ?thesis by simp
  qed
qed


lemma bs_empty_iff: "bs_empty bs \<longleftrightarrow> (\<forall>n. \<not> bs_bit bs n)"
proof
  assume "bs_empty bs"
  then show "\<forall>n. \<not> bs_bit bs n" by (simp add: bs_empty_def bs_bit_def)
next
  assume a: "\<forall>n. \<not> bs_bit bs n"
  have "low bs = 0"
  proof (rule ccontr)
    assume "low bs \<noteq> 0"
    then obtain n where "n < 64" "bit (low bs) n" using word_nonzero_bit by blast
    then have "bs_bit bs n" by (simp add: bs_bit_def)
    with a show False by blast
  qed
  moreover have "high bs = 0"
  proof (rule ccontr)
    assume "high bs \<noteq> 0"
    then obtain n where "n < 64" "bit (high bs) n" using word_nonzero_bit by blast
    then have "bs_bit bs (n + 64)" by (simp add: bs_bit_def)
    with a show False by blast
  qed
  ultimately show "bs_empty bs" by (simp add: bs_empty_def)
qed

lemma HighestSetBit_empty: "bs_empty bs \<Longrightarrow> HighestSetBit bs = - 1"
  by (simp add: HighestSetBit_def bs_empty_def)

lemma LowestSetBit_empty: "bs_empty bs \<Longrightarrow> LowestSetBit bs = - 1"
  by (simp add: LowestSetBit_def bs_empty_def)

lemma HighestSetBit_nonempty:
  assumes "\<not> bs_empty bs"
  shows "\<exists>m<128. HighestSetBit bs = int m \<and> bs_bit bs m \<and> (\<forall>n>m. \<not> bs_bit bs n)"
proof (cases "high bs = 0")
  case False
  let ?m = "64 + (63 - builtin_clzll (high bs))"
  from False have c: "builtin_clzll (high bs) < 64" "bit (high bs) (63 - builtin_clzll (high bs))"
    "\<And>n. 63 - builtin_clzll (high bs) < n \<Longrightarrow> \<not> bit (high bs) n"
    by (rule clzll_spec)+
  have "HighestSetBit bs = int ?m" using False c(1) by (simp add: HighestSetBit_def)
  moreover have "bs_bit bs ?m" using c(2) by (simp add: bs_bit_def)
  moreover have "\<not> bs_bit bs n" if "?m < n" for n
    using that c(3)[of "n - 64"] by (simp add: bs_bit_def)
  moreover have "?m < 128" by simp
  ultimately show ?thesis by blast
next
  case True
  with assms have nz: "low bs \<noteq> 0" by (simp add: bs_empty_def)
  let ?m = "63 - builtin_clzll (low bs)"
  from nz have c: "builtin_clzll (low bs) < 64" "bit (low bs) ?m"
    "\<And>n. ?m < n \<Longrightarrow> \<not> bit (low bs) n"
    by (rule clzll_spec)+
  have m64: "?m < 64" by arith
  have "HighestSetBit bs = int ?m" using True nz c(1) by (simp add: HighestSetBit_def)
  moreover have "bs_bit bs ?m" using c(2) m64 by (simp add: bs_bit_def)
  moreover have "\<not> bs_bit bs n" if "?m < n" for n
    using that c(3)[of n] True by (simp add: bs_bit_def)
  moreover have "?m < 128" by simp
  ultimately show ?thesis by blast
qed

lemma LowestSetBit_nonempty:
  assumes "\<not> bs_empty bs"
  shows "\<exists>m<128. LowestSetBit bs = int m \<and> bs_bit bs m \<and> (\<forall>n<m. \<not> bs_bit bs n)"
proof (cases "low bs = 0")
  case False
  let ?m = "builtin_ctzll (low bs)"
  from False have c: "?m < 64" "bit (low bs) ?m" "\<And>n. n < ?m \<Longrightarrow> \<not> bit (low bs) n"
    by (rule ctzll_spec)+
  have "LowestSetBit bs = int ?m" using False by (simp add: LowestSetBit_def)
  moreover have "bs_bit bs ?m" using c(1,2) by (simp add: bs_bit_def)
  moreover have "\<not> bs_bit bs n" if "n < ?m" for n
    using that c(1) c(3)[of n] by (simp add: bs_bit_def)
  moreover have "?m < 128" using c(1) by simp
  ultimately show ?thesis by blast
next
  case True
  with assms have nz: "high bs \<noteq> 0" by (simp add: bs_empty_def)
  let ?m = "64 + builtin_ctzll (high bs)"
  from nz have c: "builtin_ctzll (high bs) < 64" "bit (high bs) (builtin_ctzll (high bs))"
    "\<And>n. n < builtin_ctzll (high bs) \<Longrightarrow> \<not> bit (high bs) n"
    by (rule ctzll_spec)+
  have "LowestSetBit bs = int ?m" using True nz by (simp add: LowestSetBit_def)
  moreover have "bs_bit bs ?m" using c(2) by (simp add: bs_bit_def)
  moreover have "\<not> bs_bit bs n" if "n < ?m" for n
    using that c(3)[of "n - 64"] True by (auto simp: bs_bit_def)
  moreover have "?m < 128" using c(1) by simp
  ultimately show ?thesis by blast
qed

lemma shift_test_iff: "(drop_bit i (w::u64) AND 1 \<noteq> 0) \<longleftrightarrow> bit w i"
  by (simp add: bit_iff_odd_drop_bit and_one_eq mod_2_eq_odd)

lemma scan_down_found:
  "m < k \<Longrightarrow> bit w m \<Longrightarrow> (\<And>n. m < n \<Longrightarrow> n < k \<Longrightarrow> \<not> bit w n) \<Longrightarrow> scan_down w base k = base + int m"
proof (induction k)
  case 0
  then show ?case by simp
next
  case (Suc k)
  show ?case
  proof (cases "m = k")
    case True
    with Suc.prems show ?thesis by (simp add: shift_test_iff)
  next
    case False
    with Suc.prems have mk: "m < k" by simp
    from Suc.prems(3)[of k] mk have "\<not> bit w k" by simp
    moreover have "scan_down w base k = base + int m"
      using mk Suc.prems(2) Suc.prems(3) by (intro Suc.IH) auto
    ultimately show ?thesis by (simp add: shift_test_iff)
  qed
qed

lemma scan_up_found:
  "i \<le> m \<Longrightarrow> m < i + k \<Longrightarrow> bit w m \<Longrightarrow> (\<And>n. i \<le> n \<Longrightarrow> n < m \<Longrightarrow> \<not> bit w n)
     \<Longrightarrow> scan_up w base i k = base + int m"
proof (induction k arbitrary: i)
  case 0
  then show ?case by simp
next
  case (Suc k)
  show ?case
  proof (cases "m = i")
    case True
    with Suc.prems show ?thesis by (simp add: shift_test_iff)
  next
    case False
    with Suc.prems have im: "i < m" by simp
    from Suc.prems(4)[of i] im have "\<not> bit w i" by simp
    moreover have "scan_up w base (Suc i) k = base + int m"
      using im Suc.prems by (intro Suc.IH) auto
    ultimately show ?thesis by (simp add: shift_test_iff)
  qed
qed

lemma HighestSetBit_fallback_eq: "HighestSetBit_fallback bs = HighestSetBit bs"
proof -
  have *: "scan_down w base 64 = base + (63 - int (builtin_clzll w))" if "w \<noteq> 0" for w base
  proof -
    from that have c: "builtin_clzll w < 64" "bit w (63 - builtin_clzll w)"
      "\<And>n. 63 - builtin_clzll w < n \<Longrightarrow> \<not> bit w n"
      by (rule clzll_spec)+
    have "scan_down w base 64 = base + int (63 - builtin_clzll w)"
      using c(2) c(3) by (intro scan_down_found) auto
    with c(1) show ?thesis by simp
  qed
  show ?thesis
    by (simp add: HighestSetBit_fallback_def HighestSetBit_def *)
qed

lemma LowestSetBit_fallback_eq: "LowestSetBit_fallback bs = LowestSetBit bs"
proof -
  have *: "scan_up w base 0 64 = base + int (builtin_ctzll w)" if "w \<noteq> 0" for w base
  proof -
    from that have c: "builtin_ctzll w < 64" "bit w (builtin_ctzll w)"
      "\<And>n. n < builtin_ctzll w \<Longrightarrow> \<not> bit w n"
      by (rule ctzll_spec)+
    show ?thesis using c by (intro scan_up_found) auto
  qed
  show ?thesis
    by (simp add: LowestSetBit_fallback_def LowestSetBit_def *)
qed

lemma HighestSetBit_eqI:
  assumes "bs_bit bs m" and "\<And>n. m < n \<Longrightarrow> \<not> bs_bit bs n"
  shows "HighestSetBit bs = int m"
proof -
  from assms(1) have "\<not> bs_empty bs" by (auto simp: bs_empty_iff)
  then obtain k where k: "HighestSetBit bs = int k" "bs_bit bs k" "\<forall>n>k. \<not> bs_bit bs n"
    using HighestSetBit_nonempty by blast
  have "k = m"
  proof (rule ccontr)
    assume "k \<noteq> m"
    then consider "k < m" | "m < k" by arith
    then show False using k assms by cases auto
  qed
  with k show ?thesis by simp
qed

lemma LowestSetBit_eqI:
  assumes "bs_bit bs m" and "\<And>n. n < m \<Longrightarrow> \<not> bs_bit bs n"
  shows "LowestSetBit bs = int m"
proof -
  from assms(1) have "\<not> bs_empty bs" by (auto simp: bs_empty_iff)
  then obtain k where k: "LowestSetBit bs = int k" "bs_bit bs k" "\<forall>n<k. \<not> bs_bit bs n"
    using LowestSetBit_nonempty by blast
  have "k = m"
  proof (rule ccontr)
    assume "k \<noteq> m"
    then consider "k < m" | "m < k" by arith
    then show False using k assms by cases auto
  qed
  with k show ?thesis by simp
qed

section \<open>Positions, prices and signed values\<close>

lemma kArraySize_eq [simp]: "kArraySize = 100"
  by (simp add: kArraySize_def kMaxBookLevels_def)

lemma lt_kArraySize_iff: "(p::u32) < 100 \<longleftrightarrow> unat p < 100"
  by (simp add: word_less_nat_alt)

lemma ge_kArraySize_iff: "(100::u32) \<le> p \<longleftrightarrow> 100 \<le> unat p"
  by (simp add: word_le_nat_alt)

lemma unat_of_nat_u32: "n < 4294967296 \<Longrightarrow> unat (of_nat n :: u32) = n"
  by (simp add: unat_of_nat take_bit_nat_eq_self)

lemma TestBit_of_nat: "n < 4294967296 \<Longrightarrow> TestBit bs (of_nat n) \<longleftrightarrow> bs_bit bs n"
  by (simp add: TestBit_iff unat_of_nat_u32)

lemma wf_book_iff:
  "wf_book b \<longleftrightarrow> length (bids b) = 100 \<and> length (asks b) = 100 \<and>
     (\<forall>n\<ge>100. \<not> bs_bit (bids_bitset b) n) \<and> (\<forall>n\<ge>100. \<not> bs_bit (asks_bitset b) n)"
proof -
  have "(\<forall>n \<in> set [100..<128]. \<not> TestBit bs (of_nat n)) \<longleftrightarrow> (\<forall>n\<ge>100. \<not> bs_bit bs n)" for bs
  proof
    assume a: "\<forall>n \<in> set [100..<128]. \<not> TestBit bs (of_nat n)"
    show "\<forall>n\<ge>100. \<not> bs_bit bs n"
    proof (intro allI impI)
      fix n :: nat assume n: "100 \<le> n"
      show "\<not> bs_bit bs n"
      proof (cases "n < 128")
        case True
        with n have "n \<in> set [100..<128]" unfolding set_upt by simp
        with a have "\<not> TestBit bs (of_nat n)" by blast
        with True show ?thesis by (simp add: TestBit_of_nat)
      next
        case False
        then show ?thesis by (simp add: bs_bit_ge128)
      qed
    qed
  next
    assume "\<forall>n\<ge>100. \<not> bs_bit bs n"
    then show "\<forall>n \<in> set [100..<128]. \<not> TestBit bs (of_nat n)"
      unfolding set_upt by (simp add: TestBit_of_nat)
  qed
  then show ?thesis unfolding wf_book_def by (simp only: kArraySize_eq) auto
qed

lemma book_invariant_iff:
  "book_invariant b \<longleftrightarrow>
     (\<forall>p<100. (bs_bit (bids_bitset b) p \<longleftrightarrow> bids b ! p \<noteq> 0) \<and>
               (bs_bit (asks_bitset b) p \<longleftrightarrow> asks b ! p \<noteq> 0))"
  unfolding book_invariant_def kArraySize_eq set_upt by (auto simp: TestBit_of_nat)

lemma sint_cases_u32: "sint (w::u32) = uint w \<or> sint w = uint w - 2 ^ 32"
proof -
  have "take_bit 32 (uint w) = uint w"
    using uint_lt2p[of w] by (simp add: take_bit_int_eq_self)
  then show ?thesis
    by (simp add: sint_uint signed_take_bit_eq_take_bit_minus of_bool_def)
qed

lemma sint_pos_unat: "0 \<le> sint (c::s32) \<Longrightarrow> int (unat c) = sint c"
proof -
  assume a: "0 \<le> sint c"
  have "uint c < 2 ^ 32" using uint_lt2p[of c] by simp
  with a sint_cases_u32[of c] have "sint c = uint c" by arith
  then show ?thesis by simp
qed

lemma sint_pos_nonzero: "0 < sint (c::s32) \<Longrightarrow> c \<noteq> 0"
  by auto

lemma unat_neg_u32: "c \<noteq> 0 \<Longrightarrow> unat (- c :: u32) = 2 ^ 32 - unat c"
  using unat_sub_if'[of 0 c] by (simp add: unat_gt_0)

lemma TestBit_ClearBit: "TestBit (ClearBit bs pr) pos \<longleftrightarrow> TestBit bs pos \<and> pos \<noteq> pr"
  by (auto simp: TestBit_iff bs_bit_ClearBit word_unat_eq_iff)

lemma TestBit_SetBit: "TestBit (SetBit bs pr) pos \<longleftrightarrow> (pr < kMaxBitPosition \<and> pos = pr) \<or> TestBit bs pos"
  by (auto simp: TestBit_iff bs_bit_SetBit kMaxBitPosition_def word_less_nat_alt word_unat_eq_iff)

lemma uint_scast_u64: "uint (scast (n::s32) :: u64) = sint n mod 2 ^ 64"
  unfolding scast_eq uint_word_of_int by simp

lemma reserve_nonneg: "0 \<le> sint n \<Longrightarrow> vector_reserve n = Inr ()"
proof -
  assume a: "0 \<le> sint n"
  have "sint n < 2 ^ 31" using sint_lt[of n] by simp
  with a have "sint n mod 2 ^ 64 = sint n" by simp
  with a \<open>sint n < 2 ^ 31\<close> have "\<not> (scast n :: u64) > vector_max_size"
    by (simp add: word_less_alt uint_scast_u64 vector_max_size_def)
  then show ?thesis by (simp add: vector_reserve_def)
qed

lemma reserve_neg: "sint n < 0 \<Longrightarrow> vector_reserve n = Inl length_error"
proof -
  assume a: "sint n < 0"
  have "- (2 ^ 31) \<le> sint n" using sint_ge[of n] by simp
  with a have "(sint n + 2 ^ 64) mod 2 ^ 64 = sint n + 2 ^ 64"
    by (intro mod_pos_pos_trivial) auto
  moreover have "(sint n + 2 ^ 64) mod 2 ^ 64 = sint n mod 2 ^ 64"
    by (rule mod_add_self2)
  ultimately have "sint n mod 2 ^ 64 = sint n + 2 ^ 64" by simp
  with a \<open>- (2 ^ 31) \<le> sint n\<close> have "(scast n :: u64) > vector_max_size"
    by (simp add: word_less_alt uint_scast_u64 vector_max_size_def)
  then show ?thesis by (simp add: vector_reserve_def)
qed

section \<open>Best prices\<close>

lemma BestBid_eqI:
  assumes "bs_bit (bids_bitset b) p" and "\<And>n. p < n \<Longrightarrow> \<not> bs_bit (bids_bitset b) n" and "p < 100"
  shows "BestBid b = (of_nat p, bids b ! p)"
proof -
  have "HighestSetBit (bids_bitset b) = int p"
    using assms(1,2) by (rule HighestSetBit_eqI)
  moreover have "(of_nat p :: u32) < 100"
    using assms(3) by (simp add: lt_kArraySize_iff unat_of_nat_u32)
  ultimately show ?thesis by (simp add: BestBid_def)
qed

lemma BestAsk_eqI:
  assumes "bs_bit (asks_bitset b) p" and "\<And>n. n < p \<Longrightarrow> \<not> bs_bit (asks_bitset b) n" and "p < 100"
  shows "BestAsk b = (of_nat p, asks b ! p)"
proof -
  have "LowestSetBit (asks_bitset b) = int p"
    using assms(1,2) by (rule LowestSetBit_eqI)
  moreover have "(of_nat p :: u32) < 100"
    using assms(3) by (simp add: lt_kArraySize_iff unat_of_nat_u32)
  ultimately show ?thesis by (simp add: BestAsk_def)
qed

lemma BestBid_empty: "bs_empty (bids_bitset b) \<Longrightarrow> BestBid b = (0, 0)"
  by (simp add: BestBid_def HighestSetBit_empty)

lemma BestAsk_empty: "bs_empty (asks_bitset b) \<Longrightarrow> BestAsk b = (0, 0)"
  by (simp add: BestAsk_def LowestSetBit_empty)

lemma BestBid_occupied:
  assumes "wf_book b" and "\<not> bs_empty (bids_bitset b)"
  shows "\<exists>m<100. BestBid b = (of_nat m, bids b ! m) \<and> bs_bit (bids_bitset b) m \<and>
           (\<forall>n>m. \<not> bs_bit (bids_bitset b) n)"
proof -
  from assms(2) obtain m where m: "bs_bit (bids_bitset b) m" "\<forall>n>m. \<not> bs_bit (bids_bitset b) n"
    using HighestSetBit_nonempty by blast
  from assms(1) m(1) have "m < 100" by (auto simp: wf_book_iff not_le[symmetric])
  with m show ?thesis using BestBid_eqI[of b m] by auto
qed

lemma BestAsk_occupied:
  assumes "wf_book b" and "\<not> bs_empty (asks_bitset b)"
  shows "\<exists>m<100. BestAsk b = (of_nat m, asks b ! m) \<and> bs_bit (asks_bitset b) m \<and>
           (\<forall>n<m. \<not> bs_bit (asks_bitset b) n)"
proof -
  from assms(2) obtain m where m: "bs_bit (asks_bitset b) m" "\<forall>n<m. \<not> bs_bit (asks_bitset b) n"
    using LowestSetBit_nonempty by blast
  from assms(1) m(1) have "m < 100" by (auto simp: wf_book_iff not_le[symmetric])
  with m show ?thesis using BestAsk_eqI[of b m] by auto
qed

section \<open>Book states under the mutations\<close>

lemma wf_book_init: "wf_book OrderBook_init"
  by (simp add: wf_book_iff OrderBook_init_def bs_bit_def)

lemma book_invariant_init: "book_invariant OrderBook_init"
  by (simp add: book_invariant_iff OrderBook_init_def bs_bit_def)

lemma wf_book_ApplyDelta: "wf_book b \<Longrightarrow> wf_book (ApplyDelta b msg)"
  by (auto simp: wf_book_iff ApplyDelta_def Let_def bs_bit_SetBit bs_bit_ClearBit
        ge_kArraySize_iff not_le)

lemma wf_book_ApplyTrade: "wf_book b \<Longrightarrow> wf_book (ApplyTrade b trade)"
  by (auto simp: wf_book_iff ApplyTrade_def Let_def bs_bit_ClearBit)

lemma book_invariant_ApplyDelta:
  assumes "wf_book b" and "book_invariant b"
  shows "book_invariant (ApplyDelta b msg)"
proof (cases "price msg \<ge> kArraySize")
  case True
  with assms(2) show ?thesis by (simp add: ApplyDelta_def Let_def)
next
  case False
  then have p: "unat (price msg) < 100" by (simp add: ge_kArraySize_iff)
  from assms(1) have len: "length (bids b) = 100" "length (asks b) = 100"
    by (simp_all add: wf_book_iff)
  show ?thesis
  proof (cases "side msg")
    case kUndefined
    with assms(2) show ?thesis by (simp add: ApplyDelta_def Let_def)
  next
    case kYes
    with False p len assms(2) show ?thesis
      by (auto simp: book_invariant_iff ApplyDelta_def Let_def bs_bit_SetBit bs_bit_ClearBit
            nth_list_update)
  next
    case kNo
    with False p len assms(2) show ?thesis
      by (auto simp: book_invariant_iff ApplyDelta_def Let_def bs_bit_SetBit bs_bit_ClearBit
            nth_list_update)
  qed
qed

lemma book_invariant_ApplyTrade:
  assumes "wf_book b" and "book_invariant b" and "trade_on_stock b trade"
  shows "book_invariant (ApplyTrade b trade)"
proof -
  from assms(1) have len: "length (bids b) = 100" "length (asks b) = 100"
    by (simp_all add: wf_book_iff)
  show ?thesis
  proof (cases "sint (count trade) \<le> 0")
    case True
    with assms(2) show ?thesis by (simp add: ApplyTrade_def Let_def)
  next
    case pos: False
    show ?thesis
    proof (cases "taker_side trade")
      case kUndefined
      with assms(2) show ?thesis by (simp add: ApplyTrade_def Let_def)
    next
      case kYes
      show ?thesis
      proof (cases "TradeMessage.no_price trade < kArraySize")
        case True
        then have p: "unat (TradeMessage.no_price trade) < 100" by (simp add: lt_kArraySize_iff)
        from assms(3) pos kYes True have nz: "asks b ! unat (TradeMessage.no_price trade) \<noteq> 0"
          by (simp add: trade_on_stock_def)
        with p assms(2) have "bs_bit (asks_bitset b) (unat (TradeMessage.no_price trade))"
          by (simp add: book_invariant_iff)
        with pos kYes True p len assms(2) show ?thesis
          by (auto simp: book_invariant_iff ApplyTrade_def Let_def bs_bit_ClearBit nth_list_update)
      next
        case False
        with pos kYes assms(2) show ?thesis by (simp add: ApplyTrade_def Let_def)
      qed
    next
      case kNo
      show ?thesis
      proof (cases "TradeMessage.yes_price trade < kArraySize")
        case True
        then have p: "unat (TradeMessage.yes_price trade) < 100" by (simp add: lt_kArraySize_iff)
        from assms(3) pos kNo True have nz: "bids b ! unat (TradeMessage.yes_price trade) \<noteq> 0"
          by (simp add: trade_on_stock_def)
        with p assms(2) have "bs_bit (bids_bitset b) (unat (TradeMessage.yes_price trade))"
          by (simp add: book_invariant_iff)
        with pos kNo True p len assms(2) show ?thesis
          by (auto simp: book_invariant_iff ApplyTrade_def Let_def bs_bit_ClearBit nth_list_update)
      next
        case False
        with pos kNo assms(2) show ?thesis by (simp add: ApplyTrade_def Let_def)
      qed
    qed
  qed
qed

lemma load_bid_other [simp]:
  "asks (load_bid snap i b) = asks b" "asks_bitset (load_bid snap i b) = asks_bitset b"
  "length (bids (load_bid snap i b)) = length (bids b)"
  by (simp_all add: load_bid_def Let_def)

lemma load_ask_other [simp]:
  "bids (load_ask snap i b) = bids b" "bids_bitset (load_ask snap i b) = bids_bitset b"
  "length (asks (load_ask snap i b)) = length (asks b)"
  by (simp_all add: load_ask_def Let_def)

lemma fold_load_bid_other [simp]:
  "asks (fold (load_bid snap) is b) = asks b"
  "asks_bitset (fold (load_bid snap) is b) = asks_bitset b"
  "length (bids (fold (load_bid snap) is b)) = length (bids b)"
  by (induction "is" arbitrary: b; simp)+

lemma fold_load_ask_other [simp]:
  "bids (fold (load_ask snap) is b) = bids b"
  "bids_bitset (fold (load_ask snap) is b) = bids_bitset b"
  "length (asks (fold (load_ask snap) is b)) = length (asks b)"
  by (induction "is" arbitrary: b; simp)+

lemma of_nat_eq_u32_iff: "p < 100 \<Longrightarrow> (of_nat p :: u32) = pr \<longleftrightarrow> p = unat pr"
  by (auto simp: unat_of_nat_u32)

lemma load_bid_nth:
  assumes "p < length (bids b)" and "p < 100"
  shows "bids (load_bid snap i b) ! p =
         (if of_nat p = SnapshotMessage.yes_price snap ! i then yes_qty snap ! i else bids b ! p)"
proof (cases "SnapshotMessage.yes_price snap ! i < kArraySize")
  case True
  with assms show ?thesis
    by (simp add: load_bid_def Let_def nth_list_update of_nat_eq_u32_iff)
next
  case False
  then have "100 \<le> unat (SnapshotMessage.yes_price snap ! i)" by (simp add: lt_kArraySize_iff)
  with assms(2) have "(of_nat p :: u32) \<noteq> SnapshotMessage.yes_price snap ! i"
    using unat_of_nat_u32[of p] by auto
  with False show ?thesis by (simp add: load_bid_def Let_def)
qed

lemma load_bid_bit:
  "bs_bit (bids_bitset (load_bid snap i b)) n \<longleftrightarrow>
     bs_bit (bids_bitset b) n \<or>
     (n < 100 \<and> unat (SnapshotMessage.yes_price snap ! i) = n \<and> yes_qty snap ! i > 0)"
  by (auto simp: load_bid_def Let_def bs_bit_SetBit lt_kArraySize_iff)

lemma fold_load_bid_nth:
  assumes "p < length (bids b)" and "p < 100"
  shows "bids (fold (load_bid snap) is b) ! p =
         (case map_of (rev (map (\<lambda>i. (SnapshotMessage.yes_price snap ! i, yes_qty snap ! i)) is)) (of_nat p) of
            None \<Rightarrow> bids b ! p | Some q \<Rightarrow> q)"
proof (induction "is" rule: rev_induct)
  case Nil
  then show ?case by simp
next
  case (snoc i "is")
  with assms show ?case by (simp add: load_bid_nth)
qed

lemma fold_load_bid_bit:
  "bs_bit (bids_bitset (fold (load_bid snap) is b)) n \<longleftrightarrow>
     bs_bit (bids_bitset b) n \<or>
     (n < 100 \<and> (\<exists>i \<in> set is. unat (SnapshotMessage.yes_price snap ! i) = n \<and> yes_qty snap ! i > 0))"
proof (induction "is" rule: rev_induct)
  case Nil
  then show ?case by simp
next
  case (snoc i "is")
  then show ?case by (auto simp: load_bid_bit)
qed

lemma load_ask_nth:
  assumes "p < length (asks b)" and "p < 100"
  shows "asks (load_ask snap i b) ! p =
         (if of_nat p = SnapshotMessage.no_price snap ! i then no_qty snap ! i else asks b ! p)"
proof (cases "SnapshotMessage.no_price snap ! i < kArraySize")
  case True
  with assms show ?thesis
    by (simp add: load_ask_def Let_def nth_list_update of_nat_eq_u32_iff)
next
  case False
  then have "100 \<le> unat (SnapshotMessage.no_price snap ! i)" by (simp add: lt_kArraySize_iff)
  with assms(2) have "(of_nat p :: u32) \<noteq> SnapshotMessage.no_price snap ! i"
    using unat_of_nat_u32[of p] by auto
  with False show ?thesis by (simp add: load_ask_def Let_def)
qed

lemma load_ask_bit:
  "bs_bit (asks_bitset (load_ask snap i b)) n \<longleftrightarrow>
     bs_bit (asks_bitset b) n \<or>
     (n < 100 \<and> unat (SnapshotMessage.no_price snap ! i) = n \<and> no_qty snap ! i > 0)"
  by (auto simp: load_ask_def Let_def bs_bit_SetBit lt_kArraySize_iff)

lemma fold_load_ask_nth:
  assumes "p < length (asks b)" and "p < 100"
  shows "asks (fold (load_ask snap) is b) ! p =
         (case map_of (rev (map (\<lambda>i. (SnapshotMessage.no_price snap ! i, no_qty snap ! i)) is)) (of_nat p) of
            None \<Rightarrow> asks b ! p | Some q \<Rightarrow> q)"
proof (induction "is" rule: rev_induct)
  case Nil
  then show ?case by simp
next
  case (snoc i "is")
  with assms show ?case by (simp add: load_ask_nth)
qed

lemma fold_load_ask_bit:
  "bs_bit (asks_bitset (fold (load_ask snap) is b)) n \<longleftrightarrow>
     bs_bit (asks_bitset b) n \<or>
     (n < 100 \<and> (\<exists>i \<in> set is. unat (SnapshotMessage.no_price snap ! i) = n \<and> no_qty snap ! i > 0))"
proof (induction "is" rule: rev_induct)
  case Nil
  then show ?case by simp
next
  case (snoc i "is")
  then show ?case by (auto simp: load_ask_bit)
qed

lemma bitset_reset: "bs\<lparr>low := 0, high := 0\<rparr> = \<lparr>low = 0, high = 0\<rparr>"
  by (cases bs) simp

lemma book_reset:
  "b\<lparr>bids := x, asks := y, bids_bitset := u, asks_bitset := v\<rparr> =
   \<lparr>bids = x, asks = y, bids_bitset = u, asks_bitset = v\<rparr>"
  by (cases b) simp

lemma OrderBook_init_simps [simp]:
  "length (bids OrderBook_init) = 100" "length (asks OrderBook_init) = 100"
  "p < 100 \<Longrightarrow> bids OrderBook_init ! p = 0" "p < 100 \<Longrightarrow> asks OrderBook_init ! p = 0"
  "\<not> bs_bit (bids_bitset OrderBook_init) n" "\<not> bs_bit (asks_bitset OrderBook_init) n"
  by (simp_all add: OrderBook_init_def bs_bit_def)

lemma ApplySnapshot_init: "ApplySnapshot b snap =
   fold (load_ask snap) [0..<nat (sint (no_count snap))]
     (fold (load_bid snap) [0..<nat (sint (yes_count snap))] OrderBook_init)"
  by (simp add: ApplySnapshot_def OrderBook_init_def bitset_reset book_reset del: kArraySize_eq)

lemma ApplySnapshot_length:
  "length (bids (ApplySnapshot b snap)) = 100" "length (asks (ApplySnapshot b snap)) = 100"
  by (simp_all add: ApplySnapshot_init)

lemma ApplySnapshot_bids_nth:
  "p < 100 \<Longrightarrow> bids (ApplySnapshot b snap) ! p =
     (case map_of (rev (yes_levels snap)) (of_nat p) of None \<Rightarrow> 0 | Some q \<Rightarrow> q)"
  by (simp add: ApplySnapshot_init fold_load_bid_nth yes_levels_def split: option.split)

lemma ApplySnapshot_asks_nth:
  "p < 100 \<Longrightarrow> asks (ApplySnapshot b snap) ! p =
     (case map_of (rev (no_levels snap)) (of_nat p) of None \<Rightarrow> 0 | Some q \<Rightarrow> q)"
  by (simp add: ApplySnapshot_init fold_load_ask_nth no_levels_def split: option.split)

lemma levels_mem_iff:
  assumes "n < 100"
  shows "(\<exists>i \<in> set is. unat (f i) = n \<and> 0 < g i) \<longleftrightarrow>
         (\<exists>q. (of_nat n :: u32, q) \<in> set (map (\<lambda>i. (f i, g i)) is) \<and> 0 < q)"
proof
  assume "\<exists>i \<in> set is. unat (f i) = n \<and> 0 < g i"
  then obtain i where i: "i \<in> set is" "unat (f i) = n" "0 < g i" by blast
  from i(2) have "of_nat n = f i" by auto
  with i(1) have "(of_nat n, g i) \<in> set (map (\<lambda>i. (f i, g i)) is)" by auto
  with i(3) show "\<exists>q. (of_nat n :: u32, q) \<in> set (map (\<lambda>i. (f i, g i)) is) \<and> 0 < q" by blast
next
  assume "\<exists>q. (of_nat n :: u32, q) \<in> set (map (\<lambda>i. (f i, g i)) is) \<and> 0 < q"
  then obtain q i where i: "i \<in> set is" "of_nat n = f i" "q = g i" "0 < q" by auto
  from i(2) assms have "unat (f i) = n" using unat_of_nat_u32[of n] by simp
  with i show "\<exists>i \<in> set is. unat (f i) = n \<and> 0 < g i" by blast
qed

lemma ApplySnapshot_bids_bit:
  "bs_bit (bids_bitset (ApplySnapshot b snap)) n \<longleftrightarrow>
     n < 100 \<and> (\<exists>q. (of_nat n, q) \<in> set (yes_levels snap) \<and> q > 0)"
proof -
  have "bs_bit (bids_bitset (ApplySnapshot b snap)) n \<longleftrightarrow>
     (n < 100 \<and> (\<exists>i \<in> set [0..<nat (sint (yes_count snap))].
         unat (SnapshotMessage.yes_price snap ! i) = n \<and> yes_qty snap ! i > 0))"
    by (simp add: ApplySnapshot_init fold_load_bid_bit del: set_upt)
  also have "\<dots> \<longleftrightarrow> n < 100 \<and> (\<exists>q. (of_nat n, q) \<in> set (yes_levels snap) \<and> q > 0)"
        unfolding yes_levels_def
    using levels_mem_iff[of n "[0..<nat (sint (yes_count snap))]" "\<lambda>i. SnapshotMessage.yes_price snap ! i" "\<lambda>i. yes_qty snap ! i"]
    by (cases "n < 100") simp_all
  finally show ?thesis .
qed

lemma ApplySnapshot_asks_bit:
  "bs_bit (asks_bitset (ApplySnapshot b snap)) n \<longleftrightarrow>
     n < 100 \<and> (\<exists>q. (of_nat n, q) \<in> set (no_levels snap) \<and> q > 0)"
proof -
  have "bs_bit (asks_bitset (ApplySnapshot b snap)) n \<longleftrightarrow>
     (n < 100 \<and> (\<exists>i \<in> set [0..<nat (sint (no_count snap))].
         unat (SnapshotMessage.no_price snap ! i) = n \<and> no_qty snap ! i > 0))"
    by (simp add: ApplySnapshot_init fold_load_ask_bit del: set_upt)
  also have "\<dots> \<longleftrightarrow> n < 100 \<and> (\<exists>q. (of_nat n, q) \<in> set (no_levels snap) \<and> q > 0)"
        unfolding no_levels_def
    using levels_mem_iff[of n "[0..<nat (sint (no_count snap))]" "\<lambda>i. SnapshotMessage.no_price snap ! i" "\<lambda>i. no_qty snap ! i"]
    by (cases "n < 100") simp_all
  finally show ?thesis .
qed

lemma wf_book_ApplySnapshot: "wf_book (ApplySnapshot b snap)"
  by (simp add: wf_book_iff ApplySnapshot_length ApplySnapshot_bids_bit ApplySnapshot_asks_bit)

lemma last_write_nonzero:
  assumes "list_all (\<lambda>(pr, q). q > 0 \<longrightarrow> map_of (rev L) pr \<noteq> Some 0) L"
  shows "(\<exists>q::u32. (k, q) \<in> set L \<and> q > 0) \<longleftrightarrow>
         (case map_of (rev L) k of None \<Rightarrow> 0 | Some q \<Rightarrow> q) \<noteq> (0::u32)"
proof
  assume "\<exists>q. (k, q) \<in> set L \<and> q > 0"
  then obtain q where q: "(k, q) \<in> set L" "q > 0" by blast
  with assms have nz: "map_of (rev L) k \<noteq> Some 0" by (auto simp: list_all_iff)
  from q(1) have "k \<in> fst ` set (rev L)" by force
  then have "map_of (rev L) k \<noteq> None" by (simp only: map_of_eq_None_iff not_not)
  then obtain q' where "map_of (rev L) k = Some q'" by auto
  with nz show "(case map_of (rev L) k of None \<Rightarrow> 0 | Some q \<Rightarrow> q) \<noteq> 0" by auto
next
  assume "(case map_of (rev L) k of None \<Rightarrow> 0 | Some q \<Rightarrow> q) \<noteq> 0"
  then obtain q where q: "map_of (rev L) k = Some q" "q \<noteq> 0" by (auto split: option.splits)
  from q(1) have "(k, q) \<in> set L" using map_of_SomeD by fastforce
  with q(2) show "\<exists>q. (k, q) \<in> set L \<and> q > 0" by (auto simp: word_gt_0)
qed

lemma book_invariant_ApplySnapshot:
  assumes "snapshot_consistent snap"
  shows "book_invariant (ApplySnapshot b snap)"
  using assms last_write_nonzero[of "yes_levels snap"] last_write_nonzero[of "no_levels snap"]
  by (simp add: book_invariant_iff snapshot_consistent_def ApplySnapshot_bids_bit
        ApplySnapshot_asks_bit ApplySnapshot_bids_nth ApplySnapshot_asks_nth)

lemma reachable_wf_book: "reachable b \<Longrightarrow> wf_book b"
  by (induction rule: reachable.induct)
     (simp_all add: wf_book_init wf_book_ApplySnapshot wf_book_ApplyDelta wf_book_ApplyTrade)

section \<open>Top-N queries\<close>

lemma filter_lowest:
  assumes "m < N" and "P m" and "\<And>k. k < m \<Longrightarrow> \<not> P k"
  shows "filter P [0..<N] = m # filter (\<lambda>k. P k \<and> k \<noteq> m) [0..<N]"
proof -
  from assms(1) have split: "[0..<N] = [0..<m] @ m # [Suc m..<N]"
    by (metis le_add1 le_add_same_cancel1 less_imp_add_positive upt_add_eq_append upt_conv_Cons)
  have 1: "filter P [0..<m] = []" using assms(3) by (auto simp: filter_empty_conv)
  have 2: "filter (\<lambda>k. P k \<and> k \<noteq> m) [0..<m] = []" using assms(3) by (auto simp: filter_empty_conv)
  have 3: "filter (\<lambda>k. P k \<and> k \<noteq> m) [Suc m..<N] = filter P [Suc m..<N]"
    by (rule filter_cong) auto
  show ?thesis unfolding split using assms(2) by (simp add: 1 2 3 del: upt_Suc)
qed

lemma filter_highest:
  assumes "m < N" and "P m" and "\<And>k. m < k \<Longrightarrow> k < N \<Longrightarrow> \<not> P k"
  shows "filter P [0..<N] = filter (\<lambda>k. P k \<and> k \<noteq> m) [0..<N] @ [m]"
proof -
  from assms(1) have split: "[0..<N] = [0..<m] @ m # [Suc m..<N]"
    by (metis le_add1 le_add_same_cancel1 less_imp_add_positive upt_add_eq_append upt_conv_Cons)
  have 1: "filter P [Suc m..<N] = []" using assms(3) by (auto simp: filter_empty_conv)
  have 2: "filter (\<lambda>k. P k \<and> k \<noteq> m) [Suc m..<N] = []" using assms(3) by (auto simp: filter_empty_conv)
  have 3: "filter (\<lambda>k. P k \<and> k \<noteq> m) [0..<m] = filter P [0..<m]"
    by (rule filter_cong) auto
  show ?thesis unfolding split using assms(2) by (simp add: 1 2 3 del: upt_Suc)
qed

lemma bs_bit_ClearBit_of_nat:
  "m < 128 \<Longrightarrow> bs_bit (ClearBit bs (of_nat m)) k \<longleftrightarrow> bs_bit bs k \<and> k \<noteq> m"
  by (simp add: bs_bit_ClearBit unat_of_nat_u32)

lemma of_nat_ge_kArraySize: "m < 128 \<Longrightarrow> (of_nat m :: u32) \<ge> 100 \<longleftrightarrow> 100 \<le> m"
  by (simp add: ge_kArraySize_iff unat_of_nat_u32)

lemma GetTopNAsks_loop_eq:
  "GetTopNAsks_loop arr msk n acc =
     acc @ take (nat n) (map (\<lambda>p. (of_nat p, arr ! p)) (filter (bs_bit msk) [0..<100]))"
proof (induction arr msk n acc rule: GetTopNAsks_loop.induct)
  case (1 arr msk n acc)
  show ?case
  proof (cases "n > 0")
    case False
    then show ?thesis by (simp add: GetTopNAsks_loop.simps)
  next
    case n: True
    show ?thesis
    proof (cases "bs_empty msk")
      case True
      then have "filter (bs_bit msk) [0..<100] = []"
        by (simp add: bs_empty_iff filter_empty_conv)
      with True n show ?thesis
        by (subst GetTopNAsks_loop.simps) (simp add: LowestSetBit_empty)
    next
      case False
      then obtain m where m: "m < 128" "LowestSetBit msk = int m" "bs_bit msk m" "\<forall>k<m. \<not> bs_bit msk k"
        using LowestSetBit_nonempty by blast
      show ?thesis
      proof (cases "m < 100")
        case ge: False
        with m(4) have "filter (bs_bit msk) [0..<100] = []"
          by (auto simp: filter_empty_conv)
        with n m(1,2) ge show ?thesis
          by (subst GetTopNAsks_loop.simps) (simp add: of_nat_ge_kArraySize)
      next
        case lt: True
        let ?msk' = "ClearBit msk (of_nat m)"
        have step: "GetTopNAsks_loop arr msk n acc =
                    GetTopNAsks_loop arr ?msk' (n - 1) (acc @ [(of_nat m, arr ! m)])"
          using n m(1,2) lt by (subst GetTopNAsks_loop.simps) (simp add: of_nat_ge_kArraySize)
        have IH: "GetTopNAsks_loop arr ?msk' (n - 1) (acc @ [(of_nat m, arr ! m)]) =
                  (acc @ [(of_nat m, arr ! m)]) @ take (nat (n - 1))
                     (map (\<lambda>p. (of_nat p, arr ! p)) (filter (bs_bit ?msk') [0..<100]))"
          using "1.IH"[of "LowestSetBit msk"] n m(1,2) lt by (simp add: of_nat_ge_kArraySize)
        have eq: "bs_bit ?msk' = (\<lambda>k. bs_bit msk k \<and> k \<noteq> m)"
          using m(1) by (intro ext) (simp add: bs_bit_ClearBit_of_nat)
        have fl: "filter (bs_bit msk) [0..<100] = m # filter (bs_bit ?msk') [0..<100]"
          unfolding eq using lt m(3,4) by (intro filter_lowest) auto
        from n obtain k where k: "nat n = Suc k" "nat (n - 1) = k"
          by (metis Suc_diff_1 nat_diff_distrib' nat_one_as_int zero_less_nat_eq zero_le_one less_imp_le)
        show ?thesis unfolding step IH fl k by simp
      qed
    qed
  qed
qed

lemma GetTopNBids_loop_eq:
  assumes "\<forall>k\<ge>100. \<not> bs_bit msk k"
  shows "GetTopNBids_loop arr msk n acc =
     acc @ take (nat n) (map (\<lambda>p. (of_nat p, arr ! p)) (rev (filter (bs_bit msk) [0..<100])))"
  using assms
proof (induction arr msk n acc rule: GetTopNBids_loop.induct)
  case (1 arr msk n acc)
  show ?case
  proof (cases "n > 0")
    case False
    then show ?thesis by (simp add: GetTopNBids_loop.simps)
  next
    case n: True
    show ?thesis
    proof (cases "bs_empty msk")
      case True
      then have "filter (bs_bit msk) [0..<100] = []"
        by (simp add: bs_empty_iff filter_empty_conv)
      with True n show ?thesis
        by (subst GetTopNBids_loop.simps) (simp add: HighestSetBit_empty)
    next
      case False
      then obtain m where m: "m < 128" "HighestSetBit msk = int m" "bs_bit msk m" "\<forall>k>m. \<not> bs_bit msk k"
        using HighestSetBit_nonempty by blast
      from m(3) "1.prems" have lt: "m < 100" by (meson not_le)
      let ?msk' = "ClearBit msk (of_nat m)"
      have step: "GetTopNBids_loop arr msk n acc =
                  GetTopNBids_loop arr ?msk' (n - 1) (acc @ [(of_nat m, arr ! m)])"
        using n m(1,2) lt by (subst GetTopNBids_loop.simps) (simp add: of_nat_ge_kArraySize)
      have pre: "\<forall>k\<ge>100. \<not> bs_bit ?msk' k"
        using "1.prems" m(1) by (simp add: bs_bit_ClearBit_of_nat)
      have IH: "GetTopNBids_loop arr ?msk' (n - 1) (acc @ [(of_nat m, arr ! m)]) =
                (acc @ [(of_nat m, arr ! m)]) @ take (nat (n - 1))
                   (map (\<lambda>p. (of_nat p, arr ! p)) (rev (filter (bs_bit ?msk') [0..<100])))"
        using "1.IH"[of "HighestSetBit msk"] n m(1,2) lt pre by (simp add: of_nat_ge_kArraySize)
      have eq: "bs_bit ?msk' = (\<lambda>k. bs_bit msk k \<and> k \<noteq> m)"
        using m(1) by (intro ext) (simp add: bs_bit_ClearBit_of_nat)
      have fl: "filter (bs_bit msk) [0..<100] = filter (bs_bit ?msk') [0..<100] @ [m]"
        unfolding eq using lt m(3,4) by (intro filter_highest) auto
      from n obtain k where k: "nat n = Suc k" "nat (n - 1) = k"
        by (metis Suc_diff_1 nat_diff_distrib' nat_one_as_int zero_less_nat_eq zero_le_one less_imp_le)
      show ?thesis unfolding step IH fl k by simp
    qed
  qed
qed

lemma occupied_bids_eq:
  "occupied_bids b = map (\<lambda>p. (of_nat p, bids b ! p)) (rev (filter (bs_bit (bids_bitset b)) [0..<100]))"
proof -
  have "filter (\<lambda>p. TestBit (bids_bitset b) (of_nat p)) [0..<100] = filter (bs_bit (bids_bitset b)) [0..<100]"
    by (rule filter_cong) (simp_all add: TestBit_of_nat)
  then show ?thesis by (simp add: occupied_bids_def)
qed

lemma occupied_asks_eq:
  "occupied_asks b = map (\<lambda>p. (of_nat p, asks b ! p)) (filter (bs_bit (asks_bitset b)) [0..<100])"
proof -
  have "filter (\<lambda>p. TestBit (asks_bitset b) (of_nat p)) [0..<100] = filter (bs_bit (asks_bitset b)) [0..<100]"
    by (rule filter_cong) (simp_all add: TestBit_of_nat)
  then show ?thesis by (simp add: occupied_asks_def)
qed

lemma of_nat_less_u32: "x < y \<Longrightarrow> y < 100 \<Longrightarrow> (of_nat x :: u32) < of_nat y"
  by (simp add: word_less_nat_alt unat_of_nat_u32)

lemma occupied_asks_ascending: "sorted_wrt (<) (map fst (occupied_asks b))"
proof -
  have "sorted_wrt (<) (filter (bs_bit (asks_bitset b)) [0..<100])"
    by (rule sorted_wrt_filter) simp
  then have "sorted_wrt (\<lambda>x y. (of_nat x :: u32) < of_nat y) (filter (bs_bit (asks_bitset b)) [0..<100])"
    by (rule sorted_wrt_mono_rel[rotated]) (auto intro: of_nat_less_u32)
  then show ?thesis by (simp add: occupied_asks_eq sorted_wrt_map comp_def)
qed

lemma occupied_bids_descending: "sorted_wrt (>) (map fst (occupied_bids b))"
proof -
  have "sorted_wrt (<) (filter (bs_bit (bids_bitset b)) [0..<100])"
    by (rule sorted_wrt_filter) simp
  then have "sorted_wrt (\<lambda>x y. (of_nat x :: u32) < of_nat y) (filter (bs_bit (bids_bitset b)) [0..<100])"
    by (rule sorted_wrt_mono_rel[rotated]) (auto intro: of_nat_less_u32)
  then show ?thesis by (simp add: occupied_bids_eq sorted_wrt_map sorted_wrt_rev comp_def)
qed

lemma GetTopNAsks_nonneg:
  "0 \<le> sint n \<Longrightarrow> GetTopNAsks b n = Inr (take (nat (sint n)) (occupied_asks b))"
  by (simp add: GetTopNAsks_def reserve_nonneg GetTopNAsks_loop_eq occupied_asks_eq)

lemma GetTopNBids_nonneg:
  "wf_book b \<Longrightarrow> 0 \<le> sint n \<Longrightarrow> GetTopNBids b n = Inr (take (nat (sint n)) (occupied_bids b))"
  by (simp add: GetTopNBids_def reserve_nonneg GetTopNBids_loop_eq occupied_bids_eq wf_book_iff)

lemma GetTopN_negative:
  "sint n < 0 \<Longrightarrow> GetTopNBids b n = Inl length_error \<and> GetTopNAsks b n = Inl length_error"
  by (simp add: GetTopNBids_def GetTopNAsks_def reserve_neg)

section \<open>The concrete inputs\<close>

lemma scenario2_levels:
  "yes_levels scenario2 = [(70, 10), (65, 5)]" "no_levels scenario2 = [(40, 8)]"
  by code_simp+

lemma duplicate_snapshot_levels:
  "yes_levels duplicate_snapshot = [(5, 3), (5, 0)]" "no_levels duplicate_snapshot = []"
  by code_simp+

lemma zero_level_snapshot_levels:
  "yes_levels zero_level_snapshot = [(0, 1), (0, 0)]" "no_levels zero_level_snapshot = [(0, 1), (0, 0)]"
  by code_simp+

lemma wf_snapshot_examples:
  "wf_snapshot scenario2" "wf_snapshot duplicate_snapshot" "wf_snapshot zero_level_snapshot"
  by (simp_all add: wf_snapshot_def scenario2_def duplicate_snapshot_def zero_level_snapshot_def
        kMaxBookLevels_def)

lemma scenario2_consistent: "snapshot_consistent scenario2"
  by (simp add: snapshot_consistent_def scenario2_levels)


section \<open>The claims\<close>

subsection \<open>C1: the array/bitset invariant after every mutation\<close>

lemma trade_on_empty_result:
  "asks (ApplyTrade OrderBook_init trade_on_empty) ! 0 = 0xFFFFFFFF"
  "\<not> TestBit (asks_bitset (ApplyTrade OrderBook_init trade_on_empty)) 0"
  by (simp_all add: ApplyTrade_def trade_on_empty_def OrderBook_init_def Let_def TestBit_def
        kMaxBitPosition_def)

lemma trade_on_empty_not_invariant:
  "\<not> book_invariant (ApplyTrade OrderBook_init trade_on_empty)"
proof
  assume "book_invariant (ApplyTrade OrderBook_init trade_on_empty)"
  moreover have "0 \<in> set [0..<unat kArraySize]" by simp
  ultimately have "TestBit (asks_bitset (ApplyTrade OrderBook_init trade_on_empty)) (of_nat 0) \<longleftrightarrow>
             asks (ApplyTrade OrderBook_init trade_on_empty) ! 0 \<noteq> 0"
    unfolding book_invariant_def by blast
  with trade_on_empty_result show False by simp
qed

text \<open>
  The invariant does hold along every call sequence whose snapshots are consistent and
  whose trades consume stocked levels only.
\<close>

lemma invariant_in_contract: "reachable_in_contract b \<Longrightarrow> wf_book b \<and> book_invariant b"
proof (induction rule: reachable_in_contract.induct)
  case contract_init
  show ?case by (simp add: wf_book_init book_invariant_init)
next
  case (contract_snapshot b snap)
  then show ?case by (simp add: wf_book_ApplySnapshot book_invariant_ApplySnapshot)
next
  case (contract_delta b msg)
  then show ?case by (simp add: wf_book_ApplyDelta book_invariant_ApplyDelta)
next
  case (contract_trade b trade)
  then show ?case by (simp add: wf_book_ApplyTrade book_invariant_ApplyTrade)
qed

text \<open>
  Claim C1 says that in every book state reached from the empty book by ApplySnapshot,
  ApplyDelta and ApplyTrade calls, bit p of a side's presence bitset is set if and only
  if that side's quantity at p is non-zero. The code does not keep this: one ApplyTrade
  call on the empty book (taker side yes, no_price 0, count 1) gives a reachable state
  whose ask quantity at price 0 is 4294967295 while ask presence bit 0 is clear.
\<close>

theorem ApplyTrade_breaks_invariant:
  "reachable (ApplyTrade OrderBook_init trade_on_empty) \<and>
   asks (ApplyTrade OrderBook_init trade_on_empty) ! 0 = 0xFFFFFFFF \<and>
   \<not> TestBit (asks_bitset (ApplyTrade OrderBook_init trade_on_empty)) 0"
proof -
  have "reachable (ApplyTrade OrderBook_init trade_on_empty)"
    by (intro reach_trade reach_init)
  with trade_on_empty_result show ?thesis by simp
qed

subsection \<open>C2: best bid and best ask are the extremal non-zero levels\<close>

lemma scenario2_book:
  "wf_book (ApplySnapshot OrderBook_init scenario2)"
  "book_invariant (ApplySnapshot OrderBook_init scenario2)"
  "bids (ApplySnapshot OrderBook_init scenario2) ! 70 = 10"
  "bids (ApplySnapshot OrderBook_init scenario2) ! 65 = 5"
  "asks (ApplySnapshot OrderBook_init scenario2) ! 40 = 8"
  "\<forall>i \<in> set [Suc 70..<unat kArraySize]. bids (ApplySnapshot OrderBook_init scenario2) ! i = 0"
  "\<forall>i \<in> set [0..<40]. asks (ApplySnapshot OrderBook_init scenario2) ! i = 0"
  "TestBit (bids_bitset (ApplySnapshot OrderBook_init scenario2)) 70"
proof -
  let ?b = "ApplySnapshot OrderBook_init scenario2"
  show "wf_book ?b" by (rule wf_book_ApplySnapshot)
  show inv: "book_invariant ?b"
    using scenario2_consistent by (rule book_invariant_ApplySnapshot)
  show b70: "bids ?b ! 70 = 10" and "bids ?b ! 65 = 5" and "asks ?b ! 40 = 8"
    by (simp_all add: ApplySnapshot_bids_nth ApplySnapshot_asks_nth scenario2_levels)
  have "bids ?b ! i = 0" if "70 < i" "i < 100" for i
    using that of_nat_eq_u32_iff[of i 70] of_nat_eq_u32_iff[of i 65]
    by (simp add: ApplySnapshot_bids_nth scenario2_levels)
  then show "\<forall>i \<in> set [Suc 70..<unat kArraySize]. bids ?b ! i = 0"
    unfolding set_upt by simp
  have "asks ?b ! i = 0" if "i < 40" for i
    using that of_nat_eq_u32_iff[of i 40]
    by (simp add: ApplySnapshot_asks_nth scenario2_levels)
  then show "\<forall>i \<in> set [0..<40]. asks ?b ! i = 0"
    unfolding set_upt by simp
  from inv b70 TestBit_of_nat[of 70 "bids_bitset ?b"] show "TestBit (bids_bitset ?b) 70"
    by (simp add: book_invariant_iff)
qed

text \<open>
  Claim C2: in a book state that satisfies the array/bitset invariant, if p is the
  highest price with a non-zero bid quantity then BestBid returns (p, bids[p]), and if q
  is the lowest price with a non-zero ask quantity then BestAsk returns (q, asks[q]).
  A book state has quantity arrays of kArraySize entries and no presence bit at a
  position that is not a price (\<open>wf_book\<close>, which every reachable state satisfies).
\<close>

theorem BestBid_BestAsk_extremal:
  assumes "wf_book b" and "book_invariant b"
  shows "(p < unat kArraySize \<and> bids b ! p \<noteq> 0 \<and> (\<forall>i \<in> set [Suc p..<unat kArraySize]. bids b ! i = 0)
            \<longrightarrow> BestBid b = (of_nat p, bids b ! p)) \<and>
         (q < unat kArraySize \<and> asks b ! q \<noteq> 0 \<and> (\<forall>i \<in> set [0..<q]. asks b ! i = 0)
            \<longrightarrow> BestAsk b = (of_nat q, asks b ! q)) \<and>
         ((\<exists>i \<in> set [0..<unat kArraySize]. bids b ! i \<noteq> 0) \<longrightarrow>
            (\<exists>m \<in> set [0..<unat kArraySize]. bids b ! m \<noteq> 0 \<and>
                (\<forall>i \<in> set [Suc m..<unat kArraySize]. bids b ! i = 0) \<and>
                BestBid b = (of_nat m, bids b ! m))) \<and>
         ((\<exists>i \<in> set [0..<unat kArraySize]. asks b ! i \<noteq> 0) \<longrightarrow>
            (\<exists>m \<in> set [0..<unat kArraySize]. asks b ! m \<noteq> 0 \<and>
                (\<forall>i \<in> set [0..<m]. asks b ! i = 0) \<and>
                BestAsk b = (of_nat m, asks b ! m)))"
proof (intro conjI impI)
  assume a: "p < unat kArraySize \<and> bids b ! p \<noteq> 0 \<and> (\<forall>i \<in> set [Suc p..<unat kArraySize]. bids b ! i = 0)"
  then have p: "p < 100" and nz: "bids b ! p \<noteq> 0" and z: "\<And>i. p < i \<Longrightarrow> i < 100 \<Longrightarrow> bids b ! i = 0"
    unfolding set_upt by auto
  from assms(2) p nz have "bs_bit (bids_bitset b) p" by (simp add: book_invariant_iff)
  moreover have "\<not> bs_bit (bids_bitset b) n" if "p < n" for n
  proof (cases "n < 100")
    case True
    with assms(2) z[OF that] show ?thesis by (simp add: book_invariant_iff)
  next
    case False
    with assms(1) show ?thesis by (simp add: wf_book_iff)
  qed
  ultimately show "BestBid b = (of_nat p, bids b ! p)" using p by (rule BestBid_eqI)
next
  assume a: "q < unat kArraySize \<and> asks b ! q \<noteq> 0 \<and> (\<forall>i \<in> set [0..<q]. asks b ! i = 0)"
  then have q: "q < 100" and nz: "asks b ! q \<noteq> 0" and z: "\<And>i. i < q \<Longrightarrow> asks b ! i = 0"
    unfolding set_upt by auto
  from assms(2) q nz have "bs_bit (asks_bitset b) q" by (simp add: book_invariant_iff)
  moreover have "\<not> bs_bit (asks_bitset b) n" if "n < q" for n
    using assms(2) z[OF that] that q by (simp add: book_invariant_iff)
  ultimately show "BestAsk b = (of_nat q, asks b ! q)" using q by (rule BestAsk_eqI)
next
  assume "\<exists>i \<in> set [0..<unat kArraySize]. bids b ! i \<noteq> 0"
  then obtain i where "i < 100" "bids b ! i \<noteq> 0" unfolding set_upt by auto
  with assms(2) have "bs_bit (bids_bitset b) i" by (simp add: book_invariant_iff)
  then have "\<not> bs_empty (bids_bitset b)" by (auto simp: bs_empty_iff)
  with assms(1) obtain m where m: "m < 100" "BestBid b = (of_nat m, bids b ! m)"
      "bs_bit (bids_bitset b) m" "\<forall>n>m. \<not> bs_bit (bids_bitset b) n"
    using BestBid_occupied by blast
  from assms(2) m(1,3) have "bids b ! m \<noteq> 0" by (simp add: book_invariant_iff)
  moreover from assms(2) m(4) have "\<forall>i \<in> set [Suc m..<unat kArraySize]. bids b ! i = 0"
    unfolding set_upt by (auto simp: book_invariant_iff)
  ultimately show "\<exists>m \<in> set [0..<unat kArraySize]. bids b ! m \<noteq> 0 \<and>
      (\<forall>i \<in> set [Suc m..<unat kArraySize]. bids b ! i = 0) \<and> BestBid b = (of_nat m, bids b ! m)"
    using m(1,2) by auto
next
  assume "\<exists>i \<in> set [0..<unat kArraySize]. asks b ! i \<noteq> 0"
  then obtain i where "i < 100" "asks b ! i \<noteq> 0" unfolding set_upt by auto
  with assms(2) have "bs_bit (asks_bitset b) i" by (simp add: book_invariant_iff)
  then have "\<not> bs_empty (asks_bitset b)" by (auto simp: bs_empty_iff)
  with assms(1) obtain m where m: "m < 100" "BestAsk b = (of_nat m, asks b ! m)"
      "bs_bit (asks_bitset b) m" "\<forall>n<m. \<not> bs_bit (asks_bitset b) n"
    using BestAsk_occupied by blast
  from assms(2) m(1,3) have "asks b ! m \<noteq> 0" by (simp add: book_invariant_iff)
  moreover from assms(2) m(1,4) have "\<forall>i \<in> set [0..<m]. asks b ! i = 0"
    unfolding set_upt by (auto simp: book_invariant_iff)
  ultimately show "\<exists>m \<in> set [0..<unat kArraySize]. asks b ! m \<noteq> 0 \<and>
      (\<forall>i \<in> set [0..<m]. asks b ! i = 0) \<and> BestAsk b = (of_nat m, asks b ! m)"
    using m(1,2) by auto
qed

text \<open>
  The book after the snapshot with bids (70, 10), (65, 5) and asks (40, 8): the best bid
  is (70, 10) and the best ask is (40, 8).
\<close>

theorem BestBid_BestAsk_extremal_witness:
  "wf_book (ApplySnapshot OrderBook_init scenario2) \<and>
   book_invariant (ApplySnapshot OrderBook_init scenario2) \<and>
   70 < unat kArraySize \<and> bids (ApplySnapshot OrderBook_init scenario2) ! 70 \<noteq> 0 \<and>
   40 < unat kArraySize \<and> asks (ApplySnapshot OrderBook_init scenario2) ! 40 \<noteq> 0 \<and>
   BestBid (ApplySnapshot OrderBook_init scenario2) = (70, 10) \<and>
   BestAsk (ApplySnapshot OrderBook_init scenario2) = (40, 8)"
  using BestBid_BestAsk_extremal [OF scenario2_book(1,2), of 70 40] scenario2_book
  by simp

subsection \<open>C3: the result on an empty side\<close>

lemma bs_empty_TestBit: "bs_empty bs \<longleftrightarrow> (\<forall>pos. \<not> TestBit bs pos)"
proof
  assume "bs_empty bs"
  then show "\<forall>pos. \<not> TestBit bs pos" by (simp add: bs_empty_iff TestBit_iff)
next
  assume a: "\<forall>pos. \<not> TestBit bs pos"
  have "\<not> bs_bit bs n" for n
  proof (cases "n < 128")
    case True
    with a TestBit_of_nat[of n bs] show ?thesis by simp
  next
    case False
    then show ?thesis by (simp add: bs_bit_ge128)
  qed
  then show "bs_empty bs" by (simp add: bs_empty_iff)
qed

lemma zero_level_book:
  "reachable (ApplySnapshot OrderBook_init zero_level_snapshot)"
  "TestBit (bids_bitset (ApplySnapshot OrderBook_init zero_level_snapshot)) 0"
  "TestBit (asks_bitset (ApplySnapshot OrderBook_init zero_level_snapshot)) 0"
  "bids (ApplySnapshot OrderBook_init zero_level_snapshot) ! 0 = 0"
  "asks (ApplySnapshot OrderBook_init zero_level_snapshot) ! 0 = 0"
  "BestBid (ApplySnapshot OrderBook_init zero_level_snapshot) = (0, 0)"
  "BestAsk (ApplySnapshot OrderBook_init zero_level_snapshot) = (0, 0)"
proof -
  let ?b = "ApplySnapshot OrderBook_init zero_level_snapshot"
  show "reachable ?b"
    by (intro reach_snapshot reach_init wf_snapshot_examples)
  have bits: "bs_bit (bids_bitset ?b) n \<longleftrightarrow> n = 0" "bs_bit (asks_bitset ?b) n \<longleftrightarrow> n = 0" for n
    using of_nat_eq_u32_iff[of n 0]
    by (auto simp: ApplySnapshot_bids_bit ApplySnapshot_asks_bit zero_level_snapshot_levels)
  from bits[of 0] TestBit_of_nat[of 0] show "TestBit (bids_bitset ?b) 0" "TestBit (asks_bitset ?b) 0"
    by simp_all
  show q: "bids ?b ! 0 = 0" "asks ?b ! 0 = 0"
    using ApplySnapshot_bids_nth[of 0 OrderBook_init zero_level_snapshot]
      ApplySnapshot_asks_nth[of 0 OrderBook_init zero_level_snapshot]
    by (simp_all add: zero_level_snapshot_levels)
  show "BestBid ?b = (0, 0)"
    using BestBid_eqI[of ?b 0] q by (simp add: bits)
  show "BestAsk ?b = (0, 0)"
    using BestAsk_eqI[of ?b 0] q by (simp add: bits)
qed

text \<open>
  Claim C3 says that on an empty side BestBid and BestAsk return an empty result that
  can be told apart from the result for an occupied level at price 0 whose stored
  quantity is zero. The two results are the same pair (0, 0): the snapshot with the
  entries (0, 1), (0, 0) on both sides gives a reachable book whose presence bit 0 is set
  on both sides with stored quantity zero, and BestBid and BestAsk return on it what
  they return on the empty book.
\<close>

theorem Best_empty_not_distinguishable:
  "(\<forall>pos. \<not> TestBit (bids_bitset OrderBook_init) pos) \<and>
   (\<forall>pos. \<not> TestBit (asks_bitset OrderBook_init) pos) \<and>
   reachable (ApplySnapshot OrderBook_init zero_level_snapshot) \<and>
   TestBit (bids_bitset (ApplySnapshot OrderBook_init zero_level_snapshot)) 0 \<and>
   bids (ApplySnapshot OrderBook_init zero_level_snapshot) ! 0 = 0 \<and>
   TestBit (asks_bitset (ApplySnapshot OrderBook_init zero_level_snapshot)) 0 \<and>
   asks (ApplySnapshot OrderBook_init zero_level_snapshot) ! 0 = 0 \<and>
   BestBid (ApplySnapshot OrderBook_init zero_level_snapshot) = BestBid OrderBook_init \<and>
   BestAsk (ApplySnapshot OrderBook_init zero_level_snapshot) = BestAsk OrderBook_init"
proof -
  have "bs_empty (bids_bitset OrderBook_init)" "bs_empty (asks_bitset OrderBook_init)"
    by (simp_all add: OrderBook_init_def bs_empty_def)
  then have "(\<forall>pos. \<not> TestBit (bids_bitset OrderBook_init) pos)"
    "(\<forall>pos. \<not> TestBit (asks_bitset OrderBook_init) pos)"
    "BestBid OrderBook_init = (0, 0)" "BestAsk OrderBook_init = (0, 0)"
    by (simp_all add: bs_empty_TestBit[symmetric] BestBid_empty BestAsk_empty)
  with zero_level_book show ?thesis by simp
qed

text \<open>
  Claim C3 as amended: on a book whose bid (resp. ask) side has no presence bit set,
  BestBid (resp. BestAsk) returns the pair (0, 0), and so do both on the empty book. The
  same pair is returned when the best occupied level is price 0 with stored quantity
  zero. In a book state that satisfies the array/bitset invariant, BestBid (resp.
  BestAsk) returns (0, 0) exactly when the side is empty.
\<close>

theorem Best_empty_sentinel:
  "((\<forall>pos. \<not> TestBit (bids_bitset b) pos) \<longrightarrow> BestBid b = (0, 0)) \<and>
   ((\<forall>pos. \<not> TestBit (asks_bitset b) pos) \<longrightarrow> BestAsk b = (0, 0)) \<and>
   BestBid OrderBook_init = (0, 0) \<and> BestAsk OrderBook_init = (0, 0) \<and>
   (HighestSetBit (bids_bitset b) = 0 \<and> bids b ! 0 = 0 \<longrightarrow> BestBid b = (0, 0)) \<and>
   (LowestSetBit (asks_bitset b) = 0 \<and> asks b ! 0 = 0 \<longrightarrow> BestAsk b = (0, 0)) \<and>
   (wf_book b \<and> book_invariant b \<longrightarrow>
      (BestBid b = (0, 0) \<longleftrightarrow> (\<forall>pos. \<not> TestBit (bids_bitset b) pos)) \<and>
      (BestAsk b = (0, 0) \<longleftrightarrow> (\<forall>pos. \<not> TestBit (asks_bitset b) pos)))"
proof -
  have 1: "BestBid b = (0, 0) \<longleftrightarrow> bs_empty (bids_bitset b)" if "wf_book b" "book_invariant b"
  proof
    assume e: "BestBid b = (0, 0)"
    show "bs_empty (bids_bitset b)"
    proof (rule ccontr)
      assume "\<not> bs_empty (bids_bitset b)"
      with that(1) obtain m where "m < 100" "BestBid b = (of_nat m, bids b ! m)" "bs_bit (bids_bitset b) m"
        using BestBid_occupied by blast
      with that(2) e show False by (simp add: book_invariant_iff)
    qed
  qed (rule BestBid_empty)
  have 2: "BestAsk b = (0, 0) \<longleftrightarrow> bs_empty (asks_bitset b)" if "wf_book b" "book_invariant b"
  proof
    assume e: "BestAsk b = (0, 0)"
    show "bs_empty (asks_bitset b)"
    proof (rule ccontr)
      assume "\<not> bs_empty (asks_bitset b)"
      with that(1) obtain m where "m < 100" "BestAsk b = (of_nat m, asks b ! m)" "bs_bit (asks_bitset b) m"
        using BestAsk_occupied by blast
      with that(2) e show False by (simp add: book_invariant_iff)
    qed
  qed (rule BestAsk_empty)
  have 3: "bs_empty (bids_bitset OrderBook_init)" "bs_empty (asks_bitset OrderBook_init)"
    by (simp_all add: OrderBook_init_def bs_empty_def)
  have 4: "HighestSetBit (bids_bitset b) = 0 \<and> bids b ! 0 = 0 \<longrightarrow> BestBid b = (0, 0)"
    "LowestSetBit (asks_bitset b) = 0 \<and> asks b ! 0 = 0 \<longrightarrow> BestAsk b = (0, 0)"
    by (simp_all add: BestBid_def BestAsk_def)
  from 1 2 3 4 show ?thesis
    by (simp add: BestBid_empty BestAsk_empty bs_empty_TestBit[symmetric])
qed

text \<open>
  On the empty book both sides are empty and both queries return (0, 0); on the book of
  scenario 2 the best bid is not (0, 0), and the bid side is not empty.
\<close>

theorem Best_empty_sentinel_witness:
  "(\<forall>pos. \<not> TestBit (bids_bitset OrderBook_init) pos) \<and>
   (\<forall>pos. \<not> TestBit (asks_bitset OrderBook_init) pos) \<and>
   wf_book OrderBook_init \<and> book_invariant OrderBook_init \<and>
   BestBid OrderBook_init = (0, 0) \<and> BestAsk OrderBook_init = (0, 0) \<and>
   wf_book (ApplySnapshot OrderBook_init scenario2) \<and>
   book_invariant (ApplySnapshot OrderBook_init scenario2) \<and>
   TestBit (bids_bitset (ApplySnapshot OrderBook_init scenario2)) 70 \<and>
   BestBid (ApplySnapshot OrderBook_init scenario2) \<noteq> (0, 0)"
proof -
  let ?b = "ApplySnapshot OrderBook_init scenario2"
  have e: "\<forall>pos. \<not> TestBit (bids_bitset OrderBook_init) pos"
    "\<forall>pos. \<not> TestBit (asks_bitset OrderBook_init) pos"
    by (simp_all add: OrderBook_init_def TestBit_def)
  from Best_empty_sentinel [of OrderBook_init] e
  have 1: "BestBid OrderBook_init = (0, 0) \<and> BestAsk OrderBook_init = (0, 0)" by blast
  from Best_empty_sentinel [of ?b] scenario2_book(1,2,8)
  have 2: "BestBid ?b \<noteq> (0, 0)" by blast
  from e 1 2 scenario2_book(1,2,8) wf_book_init book_invariant_init show ?thesis by simp
qed

subsection \<open>C4: the book after a snapshot\<close>

lemma ApplySnapshot_TestBit:
  "TestBit (bids_bitset (ApplySnapshot b snap)) pos \<longleftrightarrow>
     pos < kArraySize \<and> (\<exists>q. (pos, q) \<in> set (yes_levels snap) \<and> q > 0)"
  "TestBit (asks_bitset (ApplySnapshot b snap)) pos \<longleftrightarrow>
     pos < kArraySize \<and> (\<exists>q. (pos, q) \<in> set (no_levels snap) \<and> q > 0)"
  by (simp_all add: TestBit_iff ApplySnapshot_bids_bit ApplySnapshot_asks_bit lt_kArraySize_iff)

text \<open>
  What ApplySnapshot does for every snapshot and every starting book: the arrays keep
  kArraySize entries; the quantity at an in-range price is the quantity of the last
  entry of the side's list with that price, and zero when the list has none; entries
  with a price outside the domain change nothing. The presence bit of a price is set
  exactly when some entry of the list with that price has a positive quantity, which
  need not be the last one.
\<close>

lemma ApplySnapshot_effect:
  "length (bids (ApplySnapshot b snap)) = unat kArraySize"
  "length (asks (ApplySnapshot b snap)) = unat kArraySize"
  "p < unat kArraySize \<Longrightarrow> bids (ApplySnapshot b snap) ! p =
     (case map_of (rev (yes_levels snap)) (of_nat p) of None \<Rightarrow> 0 | Some q \<Rightarrow> q)"
  "p < unat kArraySize \<Longrightarrow> asks (ApplySnapshot b snap) ! p =
     (case map_of (rev (no_levels snap)) (of_nat p) of None \<Rightarrow> 0 | Some q \<Rightarrow> q)"
  "TestBit (bids_bitset (ApplySnapshot b snap)) pos \<longleftrightarrow>
     pos < kArraySize \<and> (\<exists>q. (pos, q) \<in> set (yes_levels snap) \<and> q > 0)"
  "TestBit (asks_bitset (ApplySnapshot b snap)) pos \<longleftrightarrow>
     pos < kArraySize \<and> (\<exists>q. (pos, q) \<in> set (no_levels snap) \<and> q > 0)"
  by (simp_all add: ApplySnapshot_length ApplySnapshot_bids_nth ApplySnapshot_asks_nth
        ApplySnapshot_TestBit)

text \<open>
  Claim C4 says that after ApplySnapshot the quantity at every listed in-range price is
  that of the last entry with this price, that its presence bit is set if and only if
  that last quantity is positive, and that unlisted prices have quantity zero and a
  clear bit. The code misses the presence bit when a price is listed twice: after the
  snapshot whose bid entries are (5, 3), (5, 0) the bid quantity at price 5 is 0, the
  last entry's, and bid presence bit 5 is set.
\<close>

theorem ApplySnapshot_duplicate_price_stale_bit:
  "wf_snapshot duplicate_snapshot \<and>
   yes_levels duplicate_snapshot = [(5, 3), (5, 0)] \<and>
   bids (ApplySnapshot OrderBook_init duplicate_snapshot) ! 5 = 0 \<and>
   TestBit (bids_bitset (ApplySnapshot OrderBook_init duplicate_snapshot)) 5"
proof -
  have "bids (ApplySnapshot OrderBook_init duplicate_snapshot) ! 5 = 0"
    by (simp add: ApplySnapshot_bids_nth duplicate_snapshot_levels)
  moreover have "TestBit (bids_bitset (ApplySnapshot OrderBook_init duplicate_snapshot)) (of_nat 5)"
    by (simp only: TestBit_of_nat ApplySnapshot_bids_bit duplicate_snapshot_levels)
       (auto intro: exI[of _ 3])
  ultimately show ?thesis
    by (simp add: wf_snapshot_examples duplicate_snapshot_levels)
qed

subsection \<open>C5: ApplySnapshot is idempotent\<close>

lemma ApplySnapshot_indep: "ApplySnapshot b snap = ApplySnapshot b' snap"
  by (simp only: ApplySnapshot_init)

text \<open>
  Claim C5: for every snapshot message and every starting book state, the state after
  ApplySnapshot of the message equals the state after applying it twice in a row.
\<close>

theorem ApplySnapshot_idempotent:
  "ApplySnapshot (ApplySnapshot b snap) snap = ApplySnapshot b snap"
  by (rule ApplySnapshot_indep)

subsection \<open>C6: calls that change nothing\<close>

text \<open>
  Claim C6: ApplyDelta with a price outside the domain or with an undefined side leaves
  the whole book state unchanged, and so does ApplyTrade with a count that is not
  positive, with an undefined taker side, or with the price of the consumed side outside
  the domain.
\<close>

theorem ApplyDelta_ApplyTrade_noop:
  "(price msg \<ge> kArraySize \<or> side msg = kUndefined \<longrightarrow> ApplyDelta b msg = b) \<and>
   (sint (count trade) \<le> 0 \<or> taker_side trade = kUndefined \<or>
    (taker_side trade = kYes \<and> TradeMessage.no_price trade \<ge> kArraySize) \<or>
    (taker_side trade = kNo \<and> TradeMessage.yes_price trade \<ge> kArraySize)
      \<longrightarrow> ApplyTrade b trade = b)"
  by (auto simp: ApplyDelta_def ApplyTrade_def Let_def not_less[symmetric] simp del: kArraySize_eq)

theorem ApplyDelta_ApplyTrade_noop_witness:
  "ApplyDelta (ApplySnapshot OrderBook_init scenario2) \<lparr>price = 100, delta = 5, side = kYes\<rparr>
     = ApplySnapshot OrderBook_init scenario2 \<and>
   ApplyDelta (ApplySnapshot OrderBook_init scenario2) \<lparr>price = 70, delta = 5, side = kUndefined\<rparr>
     = ApplySnapshot OrderBook_init scenario2 \<and>
   ApplyTrade (ApplySnapshot OrderBook_init scenario2)
       \<lparr>yes_price = 70, no_price = 40, count = 0, taker_side = kYes\<rparr>
     = ApplySnapshot OrderBook_init scenario2 \<and>
   ApplyTrade (ApplySnapshot OrderBook_init scenario2)
       \<lparr>yes_price = 70, no_price = 40, count = - 3, taker_side = kNo\<rparr>
     = ApplySnapshot OrderBook_init scenario2 \<and>
   ApplyTrade (ApplySnapshot OrderBook_init scenario2)
       \<lparr>yes_price = 70, no_price = 40, count = 3, taker_side = kUndefined\<rparr>
     = ApplySnapshot OrderBook_init scenario2 \<and>
   ApplyTrade (ApplySnapshot OrderBook_init scenario2)
       \<lparr>yes_price = 70, no_price = 100, count = 3, taker_side = kYes\<rparr>
     = ApplySnapshot OrderBook_init scenario2 \<and>
   ApplyTrade (ApplySnapshot OrderBook_init scenario2)
       \<lparr>yes_price = 4294967295, no_price = 40, count = 3, taker_side = kNo\<rparr>
     = ApplySnapshot OrderBook_init scenario2"
proof -
  let ?b = "ApplySnapshot OrderBook_init scenario2"
  note noop = ApplyDelta_ApplyTrade_noop [where b = ?b]
  have "ApplyDelta ?b \<lparr>price = 100, delta = 5, side = kYes\<rparr> = ?b"
    using noop [where msg = "\<lparr>price = 100, delta = 5, side = kYes\<rparr>"] by simp
  moreover have "ApplyDelta ?b \<lparr>price = 70, delta = 5, side = kUndefined\<rparr> = ?b"
    using noop [where msg = "\<lparr>price = 70, delta = 5, side = kUndefined\<rparr>"] by simp
  moreover have "ApplyTrade ?b \<lparr>yes_price = 70, no_price = 40, count = 0, taker_side = kYes\<rparr> = ?b"
    using noop [where trade = "\<lparr>yes_price = 70, no_price = 40, count = 0, taker_side = kYes\<rparr>"]
    by simp
  moreover have "ApplyTrade ?b \<lparr>yes_price = 70, no_price = 40, count = - 3, taker_side = kNo\<rparr> = ?b"
    using noop [where trade = "\<lparr>yes_price = 70, no_price = 40, count = - 3, taker_side = kNo\<rparr>"]
    by simp
  moreover have "ApplyTrade ?b \<lparr>yes_price = 70, no_price = 40, count = 3, taker_side = kUndefined\<rparr> = ?b"
    using noop [where trade = "\<lparr>yes_price = 70, no_price = 40, count = 3, taker_side = kUndefined\<rparr>"]
    by simp
  moreover have "ApplyTrade ?b \<lparr>yes_price = 70, no_price = 100, count = 3, taker_side = kYes\<rparr> = ?b"
    using noop [where trade = "\<lparr>yes_price = 70, no_price = 100, count = 3, taker_side = kYes\<rparr>"]
    by simp
  moreover have "ApplyTrade ?b \<lparr>yes_price = 4294967295, no_price = 40, count = 3, taker_side = kNo\<rparr> = ?b"
    using noop [where trade = "\<lparr>yes_price = 4294967295, no_price = 40, count = 3, taker_side = kNo\<rparr>"]
    by simp
  ultimately show ?thesis by simp
qed

subsection \<open>C7: a trade consumes the side opposite the taker\<close>

text \<open>
  Claim C7: for a trade with positive count, a taker on the yes side makes ApplyTrade
  subtract the count from the ask quantity at no_price (a price of the domain), clear the
  ask presence bit of that price exactly when the new quantity is zero, and leave every
  other ask level, every other ask bit and the whole bid side as they were; a taker on
  the no side does the same to the bid side at yes_price and leaves the ask side as it
  was.
\<close>

theorem ApplyTrade_consumes_opposite_side:
  assumes "wf_book b" and "0 < sint (count trade)"
  shows "(taker_side trade = kYes \<and> TradeMessage.no_price trade < kArraySize \<longrightarrow>
           (let b' = ApplyTrade b trade; pr = TradeMessage.no_price trade; p = unat pr
            in asks b' ! p = asks b ! p - count trade \<and>
               (\<forall>i \<in> set [0..<unat kArraySize]. i \<noteq> p \<longrightarrow> asks b' ! i = asks b ! i) \<and>
               length (asks b') = unat kArraySize \<and>
               (\<forall>pos. TestBit (asks_bitset b') pos \<longleftrightarrow>
                        TestBit (asks_bitset b) pos \<and> \<not> (pos = pr \<and> asks b' ! p = 0)) \<and>
               bids b' = bids b \<and> bids_bitset b' = bids_bitset b)) \<and>
         (taker_side trade = kNo \<and> TradeMessage.yes_price trade < kArraySize \<longrightarrow>
           (let b' = ApplyTrade b trade; pr = TradeMessage.yes_price trade; p = unat pr
            in bids b' ! p = bids b ! p - count trade \<and>
               (\<forall>i \<in> set [0..<unat kArraySize]. i \<noteq> p \<longrightarrow> bids b' ! i = bids b ! i) \<and>
               length (bids b') = unat kArraySize \<and>
               (\<forall>pos. TestBit (bids_bitset b') pos \<longleftrightarrow>
                        TestBit (bids_bitset b) pos \<and> \<not> (pos = pr \<and> bids b' ! p = 0)) \<and>
               asks b' = asks b \<and> asks_bitset b' = asks_bitset b))"
proof -
  from assms(1) have len: "length (bids b) = 100" "length (asks b) = 100"
    by (simp_all add: wf_book_iff)
  from assms(2) have pos: "\<not> sint (count trade) \<le> 0" by simp
  show ?thesis
  proof (intro conjI impI)
    assume a: "taker_side trade = kYes \<and> TradeMessage.no_price trade < kArraySize"
    then have "unat (TradeMessage.no_price trade) < 100" by (simp add: lt_kArraySize_iff)
    with a pos len show "let b' = ApplyTrade b trade; pr = TradeMessage.no_price trade; p = unat pr
            in asks b' ! p = asks b ! p - count trade \<and>
               (\<forall>i \<in> set [0..<unat kArraySize]. i \<noteq> p \<longrightarrow> asks b' ! i = asks b ! i) \<and>
               length (asks b') = unat kArraySize \<and>
               (\<forall>pos. TestBit (asks_bitset b') pos \<longleftrightarrow>
                        TestBit (asks_bitset b) pos \<and> \<not> (pos = pr \<and> asks b' ! p = 0)) \<and>
               bids b' = bids b \<and> bids_bitset b' = bids_bitset b"
      by (simp add: ApplyTrade_def Let_def TestBit_ClearBit)
  next
    assume a: "taker_side trade = kNo \<and> TradeMessage.yes_price trade < kArraySize"
    then have "unat (TradeMessage.yes_price trade) < 100" by (simp add: lt_kArraySize_iff)
    with a pos len show "let b' = ApplyTrade b trade; pr = TradeMessage.yes_price trade; p = unat pr
            in bids b' ! p = bids b ! p - count trade \<and>
               (\<forall>i \<in> set [0..<unat kArraySize]. i \<noteq> p \<longrightarrow> bids b' ! i = bids b ! i) \<and>
               length (bids b') = unat kArraySize \<and>
               (\<forall>pos. TestBit (bids_bitset b') pos \<longleftrightarrow>
                        TestBit (bids_bitset b) pos \<and> \<not> (pos = pr \<and> bids b' ! p = 0)) \<and>
               asks b' = asks b \<and> asks_bitset b' = asks_bitset b"
      by (simp add: ApplyTrade_def Let_def TestBit_ClearBit)
  qed
qed


text \<open>
  Scenario 4: on the book of scenario 2 the trade with taker yes, no_price 40 and count 8
  brings the ask quantity at 40 to zero and clears its presence bit; a trade with taker
  no, yes_price 70 and count 4 leaves 6 at bid price 70, with its presence bit still set.
\<close>

theorem ApplyTrade_consumes_opposite_side_witness:
  "wf_book (ApplySnapshot OrderBook_init scenario2) \<and>
   0 < sint (count scenario4) \<and> taker_side scenario4 = kYes \<and>
   TradeMessage.no_price scenario4 < kArraySize \<and>
   asks (ApplyTrade (ApplySnapshot OrderBook_init scenario2) scenario4) ! 40 = 0 \<and>
   \<not> TestBit (asks_bitset (ApplyTrade (ApplySnapshot OrderBook_init scenario2) scenario4)) 40 \<and>
   bids (ApplyTrade (ApplySnapshot OrderBook_init scenario2) scenario4) =
     bids (ApplySnapshot OrderBook_init scenario2) \<and>
   BestAsk (ApplyTrade (ApplySnapshot OrderBook_init scenario2) scenario4) = (0, 0) \<and>
   bids (ApplyTrade (ApplySnapshot OrderBook_init scenario2)
           \<lparr>yes_price = 70, no_price = 0, count = 4, taker_side = kNo\<rparr>) ! 70 = 6 \<and>
   TestBit (bids_bitset (ApplyTrade (ApplySnapshot OrderBook_init scenario2)
           \<lparr>yes_price = 70, no_price = 0, count = 4, taker_side = kNo\<rparr>)) 70"
proof -
  let ?b = "ApplySnapshot OrderBook_init scenario2"
  let ?t = "\<lparr>yes_price = 70, no_price = 0, count = 4, taker_side = kNo\<rparr>"
  have pre: "0 < sint (count scenario4)" "taker_side scenario4 = kYes"
    "TradeMessage.no_price scenario4 < kArraySize" "unat (TradeMessage.no_price scenario4) = 40"
    "count scenario4 = 8"
    by (simp_all add: scenario4_def)
  have yes: "asks (ApplyTrade ?b scenario4) ! 40 = 0"
    "\<forall>pos. TestBit (asks_bitset (ApplyTrade ?b scenario4)) pos \<longleftrightarrow>
        TestBit (asks_bitset ?b) pos \<and> pos \<noteq> 40"
    "bids (ApplyTrade ?b scenario4) = bids ?b"
    using ApplyTrade_consumes_opposite_side [OF scenario2_book(1) pre(1)] pre scenario2_book(5)
    by (simp_all add: Let_def scenario4_def)
  note bit70 = scenario2_book(8)
  have no: "bids (ApplyTrade ?b ?t) ! 70 = 6" "TestBit (bids_bitset (ApplyTrade ?b ?t)) 70"
    using ApplyTrade_consumes_opposite_side [OF scenario2_book(1), of ?t] scenario2_book(3) bit70
    by (simp_all add: Let_def)
  have "\<forall>pos. \<not> TestBit (asks_bitset (ApplyTrade ?b scenario4)) pos"
  proof
    fix pos
    show "\<not> TestBit (asks_bitset (ApplyTrade ?b scenario4)) pos"
    proof
      assume "TestBit (asks_bitset (ApplyTrade ?b scenario4)) pos"
      with yes(2) have "TestBit (asks_bitset ?b) pos" "pos \<noteq> 40" by simp_all
      then show False
        by (auto simp: ApplySnapshot_TestBit scenario2_levels)
    qed
  qed
  then have "BestAsk (ApplyTrade ?b scenario4) = (0, 0)"
    by (simp add: BestAsk_empty bs_empty_TestBit)
  with yes no pre scenario2_book(1) show ?thesis by simp
qed

subsection \<open>C8: the top-N queries\<close>

text \<open>
  For a count that is not negative both queries return the first n occupied levels of
  their side, (price, quantity) pairs in strictly descending price order for bids and
  strictly ascending order for asks, as many as there are when fewer than n are
  occupied, and none for n = 0. The queries are functions of the book: they return no
  new state, and the loops change only their local copy of the bitset.
\<close>

lemma GetTopN_nonneg:
  assumes "wf_book b" and "0 \<le> sint n"
  shows "GetTopNBids b n = Inr (take (nat (sint n)) (occupied_bids b))"
    and "GetTopNAsks b n = Inr (take (nat (sint n)) (occupied_asks b))"
    and "length (take (nat (sint n)) (occupied_bids b)) = min (nat (sint n)) (length (occupied_bids b))"
    and "length (take (nat (sint n)) (occupied_asks b)) = min (nat (sint n)) (length (occupied_asks b))"
    and "sorted_wrt (>) (map fst (take (nat (sint n)) (occupied_bids b)))"
    and "sorted_wrt (<) (map fst (take (nat (sint n)) (occupied_asks b)))"
    and "sint n = 0 \<Longrightarrow> GetTopNBids b n = Inr [] \<and> GetTopNAsks b n = Inr []"
proof -
  show "GetTopNBids b n = Inr (take (nat (sint n)) (occupied_bids b))"
    using assms by (rule GetTopNBids_nonneg)
  show "GetTopNAsks b n = Inr (take (nat (sint n)) (occupied_asks b))"
    using assms(2) by (rule GetTopNAsks_nonneg)
  show "length (take (nat (sint n)) (occupied_bids b)) = min (nat (sint n)) (length (occupied_bids b))"
    "length (take (nat (sint n)) (occupied_asks b)) = min (nat (sint n)) (length (occupied_asks b))"
    by (simp_all add: min.commute)
  show "sorted_wrt (>) (map fst (take (nat (sint n)) (occupied_bids b)))"
    using occupied_bids_descending[of b] by (simp add: take_map[symmetric] sorted_wrt_take)
  show "sorted_wrt (<) (map fst (take (nat (sint n)) (occupied_asks b)))"
    using occupied_asks_ascending[of b] by (simp add: take_map[symmetric] sorted_wrt_take)
  show "GetTopNBids b n = Inr [] \<and> GetTopNAsks b n = Inr []" if "sint n = 0"
    using that assms GetTopNBids_nonneg[of b n] GetTopNAsks_nonneg[of n b] by simp
qed

lemma GetTopN_scenarios:
  "GetTopNBids OrderBook_init 5 = Inr []"
  "GetTopNBids (ApplySnapshot OrderBook_init scenario2) 2 = Inr [(70, 10), (65, 5)]"
  by code_simp+

text \<open>
  Claim C8 says that for every integer n the two queries return the first min(n,
  occupied) occupied levels in price order, and an empty sequence for n \<le> 0. For a
  negative n the code returns nothing: \<open>result.reserve(n)\<close> receives n converted to
  the unsigned size type, a value above \<open>max_size()\<close>, and throws
  \<open>std::length_error\<close> before the loop is reached.
\<close>

theorem GetTopN_negative_count_throws:
  "GetTopNBids OrderBook_init (- 1) = Inl length_error \<and>
   GetTopNAsks OrderBook_init (- 1) = Inl length_error"
  using GetTopN_negative [of "- 1" OrderBook_init] by simp

subsection \<open>C9: the operations of Bitset128\<close>

text \<open>
  Claim C9: when no bit of a Bitset128 is set, HighestSetBit and LowestSetBit both
  return -1; otherwise HighestSetBit returns the position of the most significant set
  bit and LowestSetBit the position of the least significant one, under the compiler
  builtins and under the fallback loops alike; with only bit 127 set both return 127.
  SetBit and ClearBit at a position of 128 or more change neither word, and TestBit
  is false there.
\<close>

theorem Bitset128_operations:
  "((\<forall>p. \<not> TestBit bs p) \<longrightarrow> HighestSetBit bs = - 1 \<and> LowestSetBit bs = - 1) \<and>
   ((\<exists>p. TestBit bs p) \<longrightarrow>
      (\<exists>m \<in> set [0..<128]. HighestSetBit bs = int m \<and> TestBit bs (of_nat m) \<and>
          (\<forall>n \<in> set [Suc m..<128]. \<not> TestBit bs (of_nat n))) \<and>
      (\<exists>m \<in> set [0..<128]. LowestSetBit bs = int m \<and> TestBit bs (of_nat m) \<and>
          (\<forall>n \<in> set [0..<m]. \<not> TestBit bs (of_nat n)))) \<and>
   HighestSetBit_fallback bs = HighestSetBit bs \<and>
   LowestSetBit_fallback bs = LowestSetBit bs \<and>
   HighestSetBit (SetBit \<lparr>low = 0, high = 0\<rparr> 127) = 127 \<and>
   LowestSetBit (SetBit \<lparr>low = 0, high = 0\<rparr> 127) = 127 \<and>
   (pos \<ge> kMaxBitPosition \<longrightarrow> SetBit bs pos = bs \<and> ClearBit bs pos = bs \<and> \<not> TestBit bs pos)"
proof -
  have hi: "\<exists>m \<in> set [0..<128]. HighestSetBit bs = int m \<and> TestBit bs (of_nat m) \<and>
          (\<forall>n \<in> set [Suc m..<128]. \<not> TestBit bs (of_nat n))" if "\<not> bs_empty bs"
  proof -
    from that obtain m where "m < 128" "HighestSetBit bs = int m" "bs_bit bs m" "\<forall>n>m. \<not> bs_bit bs n"
      using HighestSetBit_nonempty by blast
    then show ?thesis unfolding set_upt by (auto simp: TestBit_of_nat)
  qed
  have lo: "\<exists>m \<in> set [0..<128]. LowestSetBit bs = int m \<and> TestBit bs (of_nat m) \<and>
          (\<forall>n \<in> set [0..<m]. \<not> TestBit bs (of_nat n))" if "\<not> bs_empty bs"
  proof -
    from that obtain m where "m < 128" "LowestSetBit bs = int m" "bs_bit bs m" "\<forall>n<m. \<not> bs_bit bs n"
      using LowestSetBit_nonempty by blast
    then show ?thesis unfolding set_upt by (auto simp: TestBit_of_nat)
  qed
  have b127: "bs_bit (SetBit \<lparr>low = 0, high = 0\<rparr> 127) n \<longleftrightarrow> n = 127" for n
    unfolding bs_bit_SetBit by (simp add: bs_bit_def)
  have h127: "HighestSetBit (SetBit \<lparr>low = 0, high = 0\<rparr> 127) = 127"
    using HighestSetBit_eqI[of "SetBit \<lparr>low = 0, high = 0\<rparr> 127" 127] by (simp add: b127)
  have l127: "LowestSetBit (SetBit \<lparr>low = 0, high = 0\<rparr> 127) = 127"
    using LowestSetBit_eqI[of "SetBit \<lparr>low = 0, high = 0\<rparr> 127" 127] by (simp add: b127)
  have oor: "SetBit bs pos = bs \<and> ClearBit bs pos = bs \<and> \<not> TestBit bs pos" if "pos \<ge> kMaxBitPosition"
    using that by (simp add: SetBit_def ClearBit_def TestBit_def)
  have e: "(\<forall>p. \<not> TestBit bs p) \<longleftrightarrow> bs_empty bs" "(\<exists>p. TestBit bs p) \<longleftrightarrow> \<not> bs_empty bs"
    by (simp_all add: bs_empty_TestBit)
  from hi lo h127 l127 oor show ?thesis unfolding e
    by (simp add: HighestSetBit_empty LowestSetBit_empty HighestSetBit_fallback_eq LowestSetBit_fallback_eq)
qed

text \<open>
  The empty set, the set with bits 3 and 70, and the positions 128 and 4294967295.
\<close>

theorem Bitset128_operations_witness:
  "(\<forall>p. \<not> TestBit \<lparr>low = 0, high = 0\<rparr> p) \<and>
   HighestSetBit \<lparr>low = 0, high = 0\<rparr> = - 1 \<and> LowestSetBit \<lparr>low = 0, high = 0\<rparr> = - 1 \<and>
   TestBit (SetBit (SetBit \<lparr>low = 0, high = 0\<rparr> 3) 70) 3 \<and>
   HighestSetBit (SetBit (SetBit \<lparr>low = 0, high = 0\<rparr> 3) 70) = 70 \<and>
   LowestSetBit (SetBit (SetBit \<lparr>low = 0, high = 0\<rparr> 3) 70) = 3 \<and>
   HighestSetBit_fallback (SetBit (SetBit \<lparr>low = 0, high = 0\<rparr> 3) 70) = 70 \<and>
   LowestSetBit_fallback (SetBit (SetBit \<lparr>low = 0, high = 0\<rparr> 3) 70) = 3 \<and>
   (128 :: u32) \<ge> kMaxBitPosition \<and>
   SetBit (SetBit (SetBit \<lparr>low = 0, high = 0\<rparr> 3) 70) 128 = SetBit (SetBit \<lparr>low = 0, high = 0\<rparr> 3) 70 \<and>
   ClearBit (SetBit (SetBit \<lparr>low = 0, high = 0\<rparr> 3) 70) 4294967295 =
     SetBit (SetBit \<lparr>low = 0, high = 0\<rparr> 3) 70 \<and>
   \<not> TestBit (SetBit (SetBit \<lparr>low = 0, high = 0\<rparr> 3) 70) 128"
proof -
  let ?e = "\<lparr>low = 0, high = 0\<rparr> :: Bitset128"
  let ?s = "SetBit (SetBit ?e 3) 70"
  have e: "\<forall>p. \<not> TestBit ?e p" by (simp add: TestBit_def)
  have bits: "bs_bit ?s n \<longleftrightarrow> n = 3 \<or> n = 70" for n
    unfolding bs_bit_SetBit by (auto simp: bs_bit_def)
  have t3: "TestBit ?s 3" by (simp add: TestBit_iff bits)
  then have ne: "\<exists>p. TestBit ?s p" by blast
  have hl: "HighestSetBit ?s = 70" "LowestSetBit ?s = 3"
    using HighestSetBit_eqI[of ?s 70] LowestSetBit_eqI[of ?s 3] by (simp_all add: bits)
  have k: "(128 :: u32) \<ge> kMaxBitPosition" "(4294967295 :: u32) \<ge> kMaxBitPosition"
    by (simp_all add: kMaxBitPosition_def)
  from Bitset128_operations [of ?e 128] e
  have 1: "HighestSetBit ?e = - 1 \<and> LowestSetBit ?e = - 1" by blast
  from Bitset128_operations [of ?s 128] k(1) hl
  have 2: "HighestSetBit_fallback ?s = 70 \<and> LowestSetBit_fallback ?s = 3 \<and>
           SetBit ?s 128 = ?s \<and> \<not> TestBit ?s 128" by simp
  from Bitset128_operations [of ?s 4294967295] k(2)
  have 3: "ClearBit ?s 4294967295 = ?s" by blast
  from e t3 hl k(1) 1 2 3 show ?thesis by simp
qed

subsection \<open>C10: ApplyTrade never sets a presence bit\<close>

text \<open>
  Claim C10: ApplyTrade sets no presence bit on either side. For a trade with positive
  count at a price of the domain whose consumed-side quantity is zero, the quantity
  wraps to 2^32 - count, which is not zero, and the side's bitset stays as it was, so
  a clear presence bit stays clear.
\<close>

theorem ApplyTrade_never_sets_bit:
  "(TestBit (asks_bitset (ApplyTrade b trade)) pos \<longrightarrow> TestBit (asks_bitset b) pos) \<and>
   (TestBit (bids_bitset (ApplyTrade b trade)) pos \<longrightarrow> TestBit (bids_bitset b) pos) \<and>
   (wf_book b \<and> 0 < sint (count trade) \<and> taker_side trade = kYes \<and>
    TradeMessage.no_price trade < kArraySize \<and> asks b ! unat (TradeMessage.no_price trade) = 0 \<longrightarrow>
      unat (asks (ApplyTrade b trade) ! unat (TradeMessage.no_price trade)) = 2 ^ 32 - nat (sint (count trade)) \<and>
      asks (ApplyTrade b trade) ! unat (TradeMessage.no_price trade) \<noteq> 0 \<and>
      asks_bitset (ApplyTrade b trade) = asks_bitset b) \<and>
   (wf_book b \<and> 0 < sint (count trade) \<and> taker_side trade = kNo \<and>
    TradeMessage.yes_price trade < kArraySize \<and> bids b ! unat (TradeMessage.yes_price trade) = 0 \<longrightarrow>
      unat (bids (ApplyTrade b trade) ! unat (TradeMessage.yes_price trade)) = 2 ^ 32 - nat (sint (count trade)) \<and>
      bids (ApplyTrade b trade) ! unat (TradeMessage.yes_price trade) \<noteq> 0 \<and>
      bids_bitset (ApplyTrade b trade) = bids_bitset b)"
proof -
  have neg: "unat (- c :: u32) = 2 ^ 32 - nat (sint c) \<and> - c \<noteq> 0" if "0 < sint c" for c :: s32
  proof -
    from that have nz: "c \<noteq> 0" by auto
    from that have "int (unat c) = sint c" by (intro sint_pos_unat) simp
    then have "unat c = nat (sint c)" by linarith
    with nz show ?thesis by (simp add: unat_neg_u32)
  qed
  have 1: "TestBit (asks_bitset (ApplyTrade b trade)) pos \<longrightarrow> TestBit (asks_bitset b) pos"
    by (simp add: ApplyTrade_def Let_def TestBit_ClearBit)
  have 2: "TestBit (bids_bitset (ApplyTrade b trade)) pos \<longrightarrow> TestBit (bids_bitset b) pos"
    by (simp add: ApplyTrade_def Let_def TestBit_ClearBit)
  have 3: "unat (asks (ApplyTrade b trade) ! unat (TradeMessage.no_price trade)) = 2 ^ 32 - nat (sint (count trade)) \<and>
      asks (ApplyTrade b trade) ! unat (TradeMessage.no_price trade) \<noteq> 0 \<and>
      asks_bitset (ApplyTrade b trade) = asks_bitset b"
    if "wf_book b" "0 < sint (count trade)" "taker_side trade = kYes"
       "TradeMessage.no_price trade < kArraySize" "asks b ! unat (TradeMessage.no_price trade) = 0"
  proof -
    from that(1) have len: "length (asks b) = 100" by (simp add: wf_book_iff)
    from that(4) have p: "unat (TradeMessage.no_price trade) < 100" by (simp add: lt_kArraySize_iff)
    from that(2) have pos: "\<not> sint (count trade) \<le> 0" by simp
    from len p pos that(3,4,5) neg[OF that(2)] show ?thesis
      by (simp add: ApplyTrade_def Let_def)
  qed
  have 4: "unat (bids (ApplyTrade b trade) ! unat (TradeMessage.yes_price trade)) = 2 ^ 32 - nat (sint (count trade)) \<and>
      bids (ApplyTrade b trade) ! unat (TradeMessage.yes_price trade) \<noteq> 0 \<and>
      bids_bitset (ApplyTrade b trade) = bids_bitset b"
    if "wf_book b" "0 < sint (count trade)" "taker_side trade = kNo"
       "TradeMessage.yes_price trade < kArraySize" "bids b ! unat (TradeMessage.yes_price trade) = 0"
  proof -
    from that(1) have len: "length (bids b) = 100" by (simp add: wf_book_iff)
    from that(4) have p: "unat (TradeMessage.yes_price trade) < 100" by (simp add: lt_kArraySize_iff)
    from that(2) have pos: "\<not> sint (count trade) \<le> 0" by simp
    from len p pos that(3,4,5) neg[OF that(2)] show ?thesis
      by (simp add: ApplyTrade_def Let_def)
  qed
  from 1 2 3 4 show ?thesis by blast
qed


theorem ApplyTrade_never_sets_bit_witness:
  "wf_book OrderBook_init \<and> 0 < sint (count trade_on_empty) \<and>
   taker_side trade_on_empty = kYes \<and> TradeMessage.no_price trade_on_empty < kArraySize \<and>
   asks OrderBook_init ! unat (TradeMessage.no_price trade_on_empty) = 0 \<and>
   unat (asks (ApplyTrade OrderBook_init trade_on_empty) ! 0) = 4294967295 \<and>
   asks (ApplyTrade OrderBook_init trade_on_empty) ! 0 \<noteq> 0 \<and>
   asks_bitset (ApplyTrade OrderBook_init trade_on_empty) = asks_bitset OrderBook_init \<and>
   \<not> TestBit (asks_bitset (ApplyTrade OrderBook_init trade_on_empty)) 0"
proof -
  have pre: "0 < sint (count trade_on_empty)" "taker_side trade_on_empty = kYes"
    "TradeMessage.no_price trade_on_empty < kArraySize"
    "unat (TradeMessage.no_price trade_on_empty) = 0" "sint (count trade_on_empty) = 1"
    by (simp_all add: trade_on_empty_def)
  have z: "asks OrderBook_init ! unat (TradeMessage.no_price trade_on_empty) = 0"
    by (simp add: pre(4))
  have c: "\<not> TestBit (asks_bitset OrderBook_init) 0"
    by (simp add: OrderBook_init_def TestBit_def)
  from ApplyTrade_never_sets_bit [of OrderBook_init trade_on_empty 0] wf_book_init pre z c
  show ?thesis by simp
qed

end
